theory Spec2Isabelle
  imports Complex_Main "HOL-Library.AList"
begin

section \<open>Python strings\<close>

text \<open>
  A Python \<open>str\<close> is a sequence of code points. It is written here as a HOL \<open>string\<close>
  with one \<open>char\<close> per code point, which covers the strs whose code points are below 256;
  \<open>length\<close>, \<open>take\<close> and the predicates below then count and classify as Python does.
\<close>

definition whitespace :: "char list" where
  \<comment> \<open>the code points below 256 for which \<open>str.isspace\<close> holds\<close>
  "whitespace = [CHR 0x09, CHR 0x0A, CHR 0x0B, CHR 0x0C, CHR 0x0D, CHR 0x1C, CHR 0x1D,
                 CHR 0x1E, CHR 0x1F, CHR 0x20, CHR 0x85, CHR 0xA0]"

definition isspace :: "char \<Rightarrow> bool" where
  "isspace c = (c \<in> set whitespace)"

definition strip :: "string \<Rightarrow> string" where
  \<comment> \<open>\<open>s.strip()\<close>\<close>
  "strip s = rev (dropWhile isspace (rev (dropWhile isspace s)))"

definition linebreaks :: "char list" where
  \<comment> \<open>the line boundaries of \<open>str.splitlines\<close> below 256; CR LF counts as one\<close>
  "linebreaks = [CHR 0x0A, CHR 0x0B, CHR 0x0C, CHR 0x0D, CHR 0x1C, CHR 0x1D, CHR 0x1E, CHR 0x85]"

fun splitlines_from :: "string \<Rightarrow> string \<Rightarrow> string list" where
  "splitlines_from cur [] = (if cur = [] then [] else [cur])"
| "splitlines_from cur (c # cs) =
     (if c = CHR 0x0D then
        (case cs of
           [] \<Rightarrow> [cur]
         | d # ds \<Rightarrow> if d = CHR 0x0A then cur # splitlines_from [] ds
                    else cur # splitlines_from [] cs)
      else if c \<in> set linebreaks then cur # splitlines_from [] cs
      else splitlines_from (cur @ [c]) cs)"

definition splitlines :: "string \<Rightarrow> string list" where
  \<comment> \<open>\<open>s.splitlines()\<close>: no empty last line after a final line boundary\<close>
  "splitlines s = splitlines_from [] s"

definition split_colon :: "string \<Rightarrow> string \<times> string" where
  \<comment> \<open>\<open>line.split(":", 1)\<close> for a line that contains a colon\<close>
  "split_colon line =
     (takeWhile (\<lambda>c. c \<noteq> CHR '':'') line, tl (dropWhile (\<lambda>c. c \<noteq> CHR '':'') line))"

definition upper_char :: "char \<Rightarrow> char" where
  "upper_char c =
     (let n = (of_char c :: nat) in if 97 \<le> n \<and> n \<le> 122 then char_of (n - 32) else c)"

definition upper :: "string \<Rightarrow> string" where
  \<comment> \<open>\<open>s.upper()\<close> on ASCII, which is all the method menu offers\<close>
  "upper s = map upper_char s"

definition replace_newline :: "string \<Rightarrow> string" where
  \<comment> \<open>\<open>s.replace("\n", " ")\<close>\<close>
  "replace_newline s = map (\<lambda>c. if c = CHR 0x0A then CHR 0x20 else c) s"

definition digit_char :: "nat \<Rightarrow> char" where
  "digit_char d = char_of (48 + d)"

function str_nat :: "nat \<Rightarrow> string" where
  "str_nat n = (if n < 10 then [digit_char n] else str_nat (n div 10) @ [digit_char (n mod 10)])"
  by pat_completeness auto
termination
  by (relation "measure id") auto

declare str_nat.simps [simp del]

definition str_int :: "int \<Rightarrow> string" where
  \<comment> \<open>\<open>str(i)\<close> of a Python int\<close>
  "str_int i = (if i < 0 then CHR ''-'' # str_nat (nat (- i)) else str_nat (nat i))"

section \<open>Dictionaries\<close>

text \<open>
  A \<open>dict\<close> keeps its keys in insertion order, and assigning to a key that is present
  keeps the key's place: an association list updated with \<open>AList.update\<close>. Two dicts are
  equal when they hold the same pairs, in any order.
\<close>

type_synonym ('k, 'v) dict = "('k \<times> 'v) list"

definition dict_eq :: "('k, 'v) dict \<Rightarrow> ('k, 'v) dict \<Rightarrow> bool" where
  "dict_eq d e = list_all (\<lambda>k. map_of d k = map_of e k) (map fst d @ map fst e)"

section \<open>The json library, on a fragment\<close>

text \<open>
  \<open>json.loads\<close> and \<open>json.dumps(_, indent=2)\<close> of the standard library are modelled on
  the documents built from objects, arrays, strings with the one-letter escapes, integers and
  \<open>true\<close>, \<open>false\<close>, \<open>null\<close>, nested at most 100 deep. An integer literal of more than
  4300 digits makes \<open>int\<close> raise \<open>ValueError\<close>, which is not a \<open>JSONDecodeError\<close>:
  that is \<open>ScanRaises\<close>. A document that leaves the fragment (a float, a \<open>\u\<close> escape,
  \<open>NaN\<close>, deeper nesting) is reported as \<open>ScanBeyond\<close> at the place where it does so,
  never as an error: scanning runs left to right as the library's does, so an error found
  before that place is the library's error too.
\<close>

datatype json =
    JNull
  | JBool bool
  | JInt int
  | JStr string
  | JArr "json list"
  | JObj "(string, json) dict"

datatype 'a scan = Scanned 'a string | ScanError | ScanRaises | ScanBeyond

definition json_ws :: "char \<Rightarrow> bool" where
  "json_ws c = (c \<in> set [CHR 0x20, CHR 0x09, CHR 0x0A, CHR 0x0D])"

definition skip_ws :: "string \<Rightarrow> string" where
  "skip_ws s = dropWhile json_ws s"

definition unescape :: "char \<Rightarrow> char option" where
  \<comment> \<open>the decoder's BACKSLASH table\<close>
  "unescape e =
     (if e = CHR 0x22 then Some (CHR 0x22)
      else if e = CHR 0x5C then Some (CHR 0x5C)
      else if e = CHR ''/'' then Some (CHR ''/'')
      else if e = CHR ''b'' then Some (CHR 0x08)
      else if e = CHR ''f'' then Some (CHR 0x0C)
      else if e = CHR ''n'' then Some (CHR 0x0A)
      else if e = CHR ''r'' then Some (CHR 0x0D)
      else if e = CHR ''t'' then Some (CHR 0x09)
      else None)"

fun scanstring :: "string \<Rightarrow> string \<Rightarrow> string scan" where
  \<comment> \<open>the input stands after the opening quote; strict mode\<close>
  "scanstring acc [] = ScanError"
| "scanstring acc (c # cs) =
     (if c = CHR 0x22 then Scanned acc cs
      else if c = CHR 0x5C then
        (case cs of
           [] \<Rightarrow> ScanError
         | e # es \<Rightarrow>
             if e = CHR ''u'' then ScanBeyond
             else (case unescape e of
                     None \<Rightarrow> ScanError
                   | Some x \<Rightarrow> scanstring (acc @ [x]) es))
      else if (of_char c :: nat) < 32 then ScanError
      else scanstring (acc @ [c]) cs)"

definition isdigit :: "char \<Rightarrow> bool" where
  "isdigit c = (48 \<le> (of_char c :: nat) \<and> (of_char c :: nat) \<le> 57)"

definition digits_val :: "string \<Rightarrow> int" where
  "digits_val ds = foldl (\<lambda>a c. 10 * a + (int (of_char c) - 48)) 0 ds"

definition is_prefix :: "string \<Rightarrow> string \<Rightarrow> bool" where
  "is_prefix p s = (take (length p) s = p)"

definition float_tail :: "string \<Rightarrow> bool" where
  \<comment> \<open>after the integer part: a fraction \<open>\.[0-9]+\<close> or an exponent \<open>[eE][-+]?[0-9]+\<close>\<close>
  "float_tail r =
     (case r of
        [] \<Rightarrow> False
      | c # r1 \<Rightarrow>
          if c = CHR ''.'' then (r1 \<noteq> [] \<and> isdigit (hd r1))
          else if c = CHR ''e'' \<or> c = CHR ''E'' then
            (case r1 of
               [] \<Rightarrow> False
             | d # r2 \<Rightarrow>
                 if d = CHR ''-'' \<or> d = CHR ''+'' then (r2 \<noteq> [] \<and> isdigit (hd r2))
                 else isdigit d)
          else False)"

definition scan_int :: "bool \<Rightarrow> string \<Rightarrow> json scan" where
  \<comment> \<open>the integer part \<open>0|[1-9][0-9]*\<close> at the head of the input, after an optional sign\<close>
  "scan_int neg s =
     (case s of
        [] \<Rightarrow> ScanError
      | c # cs \<Rightarrow>
          if \<not> isdigit c then
            (if neg \<and> is_prefix ''Infinity'' s then ScanBeyond else ScanError)
          else
            (let ds = (if c = CHR ''0'' then [c] else takeWhile isdigit s);
                 r = drop (length ds) s
             in if float_tail r then ScanBeyond
                else if 4300 < length ds then ScanRaises
                else Scanned (JInt (if neg then - digits_val ds else digits_val ds)) r))"

definition scan_number :: "string \<Rightarrow> json scan" where
  \<comment> \<open>what the scanner does when the next character opens no string, object, array or word\<close>
  "scan_number s =
     (case s of
        [] \<Rightarrow> ScanError
      | c # cs \<Rightarrow>
          if c = CHR ''-'' then scan_int True cs
          else if isdigit c then scan_int False s
          else if is_prefix ''NaN'' s \<or> is_prefix ''Infinity'' s then ScanBeyond
          else ScanError)"

fun scan_once :: "nat \<Rightarrow> nat \<Rightarrow> string \<Rightarrow> json scan"
  and scan_items :: "nat \<Rightarrow> nat \<Rightarrow> json list \<Rightarrow> string \<Rightarrow> json scan"
  and scan_members :: "nat \<Rightarrow> nat \<Rightarrow> (string, json) dict \<Rightarrow> string \<Rightarrow> json scan" where
  "scan_once 0 d s = ScanBeyond"
| "scan_once (Suc n) d [] = ScanError"
| "scan_once (Suc n) d (c # cs) =
     (if c = CHR 0x22 then
        (case scanstring [] cs of
           Scanned x r \<Rightarrow> Scanned (JStr x) r
         | ScanError \<Rightarrow> ScanError
         | ScanRaises \<Rightarrow> ScanRaises
         | ScanBeyond \<Rightarrow> ScanBeyond)
      else if c = CHR ''{'' then
        (if d = 0 then ScanBeyond
         else (case skip_ws cs of
                 [] \<Rightarrow> ScanError
               | e # r \<Rightarrow>
                   if e = CHR ''}'' then Scanned (JObj []) r
                   else if e = CHR 0x22 then scan_members n (d - 1) [] r
                   else ScanError))
      else if c = CHR ''['' then
        (if d = 0 then ScanBeyond
         else (case skip_ws cs of
                 [] \<Rightarrow> ScanError
               | e # r \<Rightarrow>
                   if e = CHR '']'' then Scanned (JArr []) r
                   else scan_items n (d - 1) [] (e # r)))
      else if c = CHR ''n'' \<and> is_prefix ''null'' (c # cs) then Scanned JNull (drop 3 cs)
      else if c = CHR ''t'' \<and> is_prefix ''true'' (c # cs) then Scanned (JBool True) (drop 3 cs)
      else if c = CHR ''f'' \<and> is_prefix ''false'' (c # cs) then Scanned (JBool False) (drop 4 cs)
      else scan_number (c # cs))"
| "scan_items 0 d acc s = ScanBeyond"
| "scan_items (Suc n) d acc s =
     (case scan_once n d s of
        ScanError \<Rightarrow> ScanError
      | ScanRaises \<Rightarrow> ScanRaises
      | ScanBeyond \<Rightarrow> ScanBeyond
      | Scanned v r \<Rightarrow>
          (case skip_ws r of
             [] \<Rightarrow> ScanError
           | e # r1 \<Rightarrow>
               if e = CHR '']'' then Scanned (JArr (acc @ [v])) r1
               else if e = CHR '','' then scan_items n d (acc @ [v]) (skip_ws r1)
               else ScanError))"
| "scan_members 0 d acc s = ScanBeyond"
| "scan_members (Suc n) d acc s =
     (case scanstring [] s of
        ScanError \<Rightarrow> ScanError
      | ScanRaises \<Rightarrow> ScanRaises
      | ScanBeyond \<Rightarrow> ScanBeyond
      | Scanned k r \<Rightarrow>
          (case skip_ws r of
             [] \<Rightarrow> ScanError
           | e # r1 \<Rightarrow>
               if e \<noteq> CHR '':'' then ScanError
               else
                 (case scan_once n d (skip_ws r1) of
                    ScanError \<Rightarrow> ScanError
                  | ScanRaises \<Rightarrow> ScanRaises
                  | ScanBeyond \<Rightarrow> ScanBeyond
                  | Scanned v r2 \<Rightarrow>
                      (case skip_ws r2 of
                         [] \<Rightarrow> ScanError
                       | f # r3 \<Rightarrow>
                           if f = CHR ''}'' then Scanned (JObj (AList.update k v acc)) r3
                           else if f = CHR '','' then
                             (case skip_ws r3 of
                                [] \<Rightarrow> ScanError
                              | g # r4 \<Rightarrow>
                                  if g = CHR 0x22
                                  then scan_members n d (AList.update k v acc) r4
                                  else ScanError)
                           else ScanError))))"

datatype loads_result = Parsed json | JSONDecodeError | ValueError | NotModelled

definition json_loads :: "string \<Rightarrow> loads_result" where
  \<comment> \<open>\<open>json.loads(s)\<close>: one value between optional whitespace, nothing after it\<close>
  "json_loads s =
     (case scan_once (2 * length s + 2) 100 (skip_ws s) of
        ScanError \<Rightarrow> JSONDecodeError
      | ScanRaises \<Rightarrow> ValueError
      | ScanBeyond \<Rightarrow> NotModelled
      | Scanned v r \<Rightarrow> if skip_ws r = [] then Parsed v else JSONDecodeError)"

definition hex_digit :: "nat \<Rightarrow> char" where
  "hex_digit d = (if d < 10 then char_of (48 + d) else char_of (87 + d))"

definition escape_char :: "char \<Rightarrow> string" where
  \<comment> \<open>one character under \<open>encode_basestring_ascii\<close>\<close>
  "escape_char c =
     (let n = (of_char c :: nat) in
      if c = CHR 0x5C then [CHR 0x5C, CHR 0x5C]
      else if c = CHR 0x22 then [CHR 0x5C, CHR 0x22]
      else if c = CHR 0x08 then [CHR 0x5C, CHR ''b'']
      else if c = CHR 0x0C then [CHR 0x5C, CHR ''f'']
      else if c = CHR 0x0A then [CHR 0x5C, CHR ''n'']
      else if c = CHR 0x0D then [CHR 0x5C, CHR ''r'']
      else if c = CHR 0x09 then [CHR 0x5C, CHR ''t'']
      else if 32 \<le> n \<and> n \<le> 126 then [c]
      else [CHR 0x5C, CHR ''u'', CHR ''0'', CHR ''0'', hex_digit (n div 16), hex_digit (n mod 16)])"

definition encode_str :: "string \<Rightarrow> string" where
  "encode_str s = CHR 0x22 # concat (map escape_char s) @ [CHR 0x22]"

definition newline_indent :: "nat \<Rightarrow> string" where
  \<comment> \<open>a newline and two spaces per level\<close>
  "newline_indent l = CHR 0x0A # replicate (2 * l) (CHR 0x20)"

fun dumps_at :: "nat \<Rightarrow> json \<Rightarrow> string"
  and dumps_items :: "nat \<Rightarrow> json list \<Rightarrow> string"
  and dumps_members :: "nat \<Rightarrow> (string, json) dict \<Rightarrow> string" where
  "dumps_at l JNull = ''null''"
| "dumps_at l (JBool b) = (if b then ''true'' else ''false'')"
| "dumps_at l (JInt i) = str_int i"
| "dumps_at l (JStr s) = encode_str s"
| "dumps_at l (JArr []) = ''[]''"
| "dumps_at l (JArr (v # vs)) =
     ''['' @ newline_indent (Suc l) @ dumps_at (Suc l) v @ dumps_items (Suc l) vs
       @ newline_indent l @ '']''"
| "dumps_at l (JObj []) = ''{}''"
| "dumps_at l (JObj (kv # kvs)) =
     ''{'' @ newline_indent (Suc l) @ encode_str (fst kv) @ '': '' @ dumps_at (Suc l) (snd kv)
       @ dumps_members (Suc l) kvs @ newline_indent l @ ''}''"
| "dumps_items l [] = []"
| "dumps_items l (v # vs) = '','' @ newline_indent l @ dumps_at l v @ dumps_items l vs"
| "dumps_members l [] = []"
| "dumps_members l (kv # kvs) =
     '','' @ newline_indent l @ encode_str (fst kv) @ '': '' @ dumps_at l (snd kv)
       @ dumps_members l kvs"

definition json_dumps :: "json \<Rightarrow> string" where
  \<comment> \<open>\<open>json.dumps(v, indent=2)\<close>\<close>
  "json_dumps v = dumps_at 0 v"

text \<open>
  Outside the fragment the two library functions are parameters: \<open>lib_loads\<close> returns a
  value of a type \<open>'j\<close> that is left open, or raises, and \<open>lib_dumps\<close> renders such a value
  or raises (\<open>None\<close>). \<open>loads\<close> and \<open>dumps\<close> are \<open>json.loads\<close> and
  \<open>json.dumps(_, indent=2)\<close> on every text: the model on the fragment, the parameters
  elsewhere.
\<close>

datatype 'j loaded =
    Loaded 'j
  | DecodeFails \<comment> \<open>\<open>json.JSONDecodeError\<close>\<close>
  | OtherFails \<comment> \<open>any other exception: \<open>ValueError\<close>, \<open>RecursionError\<close>\<close>

record 'j json_library =
  lib_loads :: "string \<Rightarrow> 'j loaded"
  lib_dumps :: "'j \<Rightarrow> string option"

definition loads :: "'j json_library \<Rightarrow> string \<Rightarrow> (json + 'j) loaded" where
  "loads lib s =
     (case json_loads s of
        Parsed v \<Rightarrow> Loaded (Inl v)
      | JSONDecodeError \<Rightarrow> DecodeFails
      | ValueError \<Rightarrow> OtherFails
      | NotModelled \<Rightarrow>
          (case lib_loads lib s of
             Loaded w \<Rightarrow> Loaded (Inr w)
           | DecodeFails \<Rightarrow> DecodeFails
           | OtherFails \<Rightarrow> OtherFails))"

definition dumps :: "'j json_library \<Rightarrow> json + 'j \<Rightarrow> string option" where
  "dumps lib v = (case v of Inl j \<Rightarrow> Some (json_dumps j) | Inr w \<Rightarrow> lib_dumps lib w)"

section \<open>Records, outcomes and the application state\<close>

text \<open>
  \<open>RequestHistoryItem\<close> is the dataclass of the source. Its objects are shared between the
  history, the two queues and the worker, and the worker assigns to their fields: they live
  in a store (\<open>heap\<close>, a list indexed by address), and the history and the queues hold
  addresses. The elapsed time, a float, is the real number it stands for.
\<close>

record RequestHistoryItem =
  http_method :: string
  url :: string
  headers :: "(string, string) dict"
  body :: string
  response_status :: "int option"
  response_time :: "real option"
  response_preview :: string

definition item_eq :: "RequestHistoryItem \<Rightarrow> RequestHistoryItem \<Rightarrow> bool" where
  \<comment> \<open>\<open>==\<close> of two items: the \<open>__eq__\<close> that \<open>@dataclass\<close> generates compares the fields\<close>
  "item_eq x y =
     (http_method x = http_method y \<and> url x = url y \<and> dict_eq (headers x) (headers y) \<and>
      body x = body y \<and> response_status x = response_status y \<and>
      response_time x = response_time y \<and> response_preview x = response_preview y)"

datatype elapsed_text =
    Dash \<comment> \<open>the text \<open>-\<close>\<close>
  | Seconds real \<comment> \<open>the text \<open>f"{elapsed:.2f} s"\<close>, kept as the number it renders\<close>

record result =
  result_status :: string
  result_elapsed :: elapsed_text
  result_headers :: string
  result_body :: string

text \<open>
  What \<open>requests.request\<close> gives back: a response (status code, reason, headers, text),
  an exception of the class the worker catches (with its \<open>str\<close>), or an exception of
  another class, which the library lets through in some cases (\<open>LocationParseError\<close> of
  urllib3 for a host with an empty label, \<open>UnicodeEncodeError\<close>).
\<close>

datatype transport_result =
    Response int string "(string, string) dict" string
  | RequestException string
  | OtherException

type_synonym label = "string \<times> string \<times> string \<times> real option"

definition display_label :: "RequestHistoryItem \<Rightarrow> label" where
  \<comment> \<open>the values the label's f-string renders: method, url, status, duration\<close>
  "display_label item =
     (http_method item, url item,
      (case response_status item of None \<Rightarrow> ''...'' | Some s \<Rightarrow> str_int s),
      response_time item)"

datatype dialog = ShowError string string | ShowWarning string string

datatype wstate =
    AtWhile \<comment> \<open>about to test \<open>request_queue.empty()\<close>\<close>
  | AtGet \<comment> \<open>about to call \<open>request_queue.get()\<close>\<close>
  | InFlight nat \<comment> \<open>inside \<open>requests.request\<close> for the item at this address\<close>
  | Exited

datatype py_error = IndexError

record app =
  heap :: "RequestHistoryItem list"
  request_queue :: "nat list"
  response_queue :: "(nat \<times> result) list"
  history :: "nat list"
  workers :: "wstate list"
  listbox :: "label list"
  curselection :: "nat list"
  status_var :: string
  elapsed_var :: elapsed_text
  response_headers_text :: string
  response_body_text :: string
  dialogs :: "dialog list"

definition init :: app where
  "init =
     \<lparr>heap = [], request_queue = [], response_queue = [], history = [], workers = [],
      listbox = [], curselection = [], status_var = ''-'', elapsed_var = Dash,
      response_headers_text = [], response_body_text = [], dialogs = []\<rparr>"

section \<open>Python lists\<close>

definition py_del :: "'a list \<Rightarrow> int \<Rightarrow> py_error + 'a list" where
  \<comment> \<open>\<open>del xs[i]\<close>: a negative index counts from the end\<close>
  "py_del xs i =
     (let n = int (length xs); j = (if i < 0 then i + n else i)
      in if 0 \<le> j \<and> j < n then Inr (take (nat j) xs @ drop (Suc (nat j)) xs)
         else Inl IndexError)"

section \<open>The operations of \<open>ApiTesterApp\<close>\<close>

definition missing_colon_warning :: "string \<Rightarrow> dialog" where
  \<comment> \<open>the warning box for a line without a colon\<close>
  "missing_colon_warning line =
     ShowWarning ''Invalid header''
       (''Header '' @ [CHR 0x27] @ line @ [CHR 0x27] @ '' is missing a colon. It will be ignored.'')"

definition header_of_line :: "string \<Rightarrow> string \<times> string" where
  \<comment> \<open>\<open>key.strip()\<close> and \<open>value.strip()\<close> of \<open>key, value = line.split(":", 1)\<close>\<close>
  "header_of_line line = (strip (fst (split_colon line)), strip (snd (split_colon line)))"

fun parse_header_lines ::
  "string list \<Rightarrow> (string, string) dict \<Rightarrow> dialog list \<Rightarrow> (string, string) dict \<times> dialog list"
where
  "parse_header_lines [] hs ws = (hs, ws)"
| "parse_header_lines (line # ls) hs ws =
     (if strip line = [] then parse_header_lines ls hs ws
      else if CHR '':'' \<notin> set line then
        parse_header_lines ls hs (ws @ [missing_colon_warning line])
      else
        parse_header_lines ls
          (AList.update (fst (header_of_line line)) (snd (header_of_line line)) hs) ws)"

definition parse_headers :: "string \<Rightarrow> (string, string) dict \<times> dialog list" where
  \<comment> \<open>the headers, and the warning boxes shown on the way\<close>
  "parse_headers raw = parse_header_lines (splitlines (strip raw)) [] []"

definition format_body :: "'j json_library \<Rightarrow> string \<Rightarrow> string option" where
  \<comment> \<open>\<open>None\<close> is an exception leaving \<open>_format_body\<close>: the handler catches
      \<open>JSONDecodeError\<close> only\<close>
  "format_body lib b =
     (case loads lib b of
        DecodeFails \<Rightarrow> Some b
      | OtherFails \<Rightarrow> None
      | Loaded parsed \<Rightarrow> dumps lib parsed)"

definition display_response :: "result \<Rightarrow> app \<Rightarrow> app" where
  "display_response r st =
     st\<lparr>status_var := result_status r, elapsed_var := result_elapsed r,
        response_headers_text := result_headers r, response_body_text := result_body r\<rparr>"

definition refresh_history_listbox :: "app \<Rightarrow> app" where
  \<comment> \<open>emptying the listbox drops its selection\<close>
  "refresh_history_listbox st =
     st\<lparr>listbox := map (\<lambda>a. display_label (heap st ! a)) (rev (history st)),
        curselection := []\<rparr>"

definition queue_request :: "string \<Rightarrow> string \<Rightarrow> string \<Rightarrow> string \<Rightarrow> app \<Rightarrow> app" where
  \<comment> \<open>the arguments are what the four form widgets return\<close>
  "queue_request method_var url_entry headers_text body_text st =
     (let u = strip url_entry in
      if u = [] then
        st\<lparr>dialogs := dialogs st
              @ [ShowError ''Missing URL'' ''Please provide a URL before sending.'']\<rparr>
      else
        let m = upper method_var;
            hw = parse_headers headers_text;
            b = strip body_text;
            item = \<lparr>http_method = m, url = u, headers = fst hw, body = b,
                    response_status = None, response_time = None, response_preview = []\<rparr>;
            a = length (heap st);
            st1 = st\<lparr>dialogs := dialogs st @ snd hw, heap := heap st @ [item],
                     history := history st @ [a]\<rparr>;
            st2 = refresh_history_listbox st1;
            st3 = st2\<lparr>request_queue := request_queue st2 @ [a], status_var := ''Pending...'',
                      elapsed_var := Dash, response_headers_text := [],
                      response_body_text := []\<rparr>
        in if length (request_queue st3) = 1 then st3\<lparr>workers := workers st3 @ [AtWhile]\<rparr>
           else st3)"

definition store_outcome :: "nat \<Rightarrow> int option \<Rightarrow> real \<Rightarrow> string \<Rightarrow> app \<Rightarrow> app" where
  \<comment> \<open>the three assignments to the item's fields\<close>
  "store_outcome a status elapsed preview st =
     st\<lparr>heap := (heap st)[a := (heap st ! a)\<lparr>response_status := status,
                                              response_time := Some elapsed,
                                              response_preview := preview\<rparr>]\<rparr>"

definition headers_json :: "(string, string) dict \<Rightarrow> string" where
  \<comment> \<open>\<open>json.dumps(dict(response.headers), indent=2)\<close>\<close>
  "headers_json hs = json_dumps (JObj (map (\<lambda>kv. (fst kv, JStr (snd kv))) hs))"

definition respond ::
  "'j json_library \<Rightarrow> nat \<Rightarrow> nat \<Rightarrow> transport_result \<Rightarrow> real \<Rightarrow> app \<Rightarrow> app"
where
  \<comment> \<open>thread \<open>i\<close>, the item at \<open>a\<close> in flight: from the return of \<open>requests.request\<close> to
      the put on the response queue\<close>
  "respond lib i a tr elapsed st =
     (case tr of
        Response code reason hs txt \<Rightarrow>
          (let st1 = store_outcome a (Some code) elapsed (replace_newline (take 200 txt)) st
           in case format_body lib txt of
                None \<Rightarrow> st1\<lparr>workers := (workers st1)[i := Exited]\<rparr>
              | Some b \<Rightarrow>
                  st1\<lparr>response_queue := response_queue st1
                         @ [(a, \<lparr>result_status = str_int code @ '' '' @ reason,
                                 result_elapsed = Seconds elapsed,
                                 result_headers = headers_json hs,
                                 result_body = b\<rparr>)],
                       workers := (workers st1)[i := AtWhile]\<rparr>)
      | RequestException msg \<Rightarrow>
          (let st1 = store_outcome a None elapsed msg st
           in st1\<lparr>response_queue := response_queue st1
                     @ [(a, \<lparr>result_status = ''Request failed'',
                             result_elapsed = Seconds elapsed,
                             result_headers = [],
                             result_body = msg\<rparr>)],
                   workers := (workers st1)[i := AtWhile]\<rparr>)
      | OtherException \<Rightarrow> st\<lparr>workers := (workers st)[i := Exited]\<rparr>)"

definition worker_step :: "nat \<Rightarrow> app \<Rightarrow> app option" where
  \<comment> \<open>thread \<open>i\<close> tests the queue or takes its head; \<open>None\<close>: it cannot move\<close>
  "worker_step i st =
     (if i < length (workers st) then
        (case workers st ! i of
           AtWhile \<Rightarrow>
             Some (if request_queue st = [] then st\<lparr>workers := (workers st)[i := Exited]\<rparr>
                   else st\<lparr>workers := (workers st)[i := AtGet]\<rparr>)
         | AtGet \<Rightarrow>
             (case request_queue st of
                [] \<Rightarrow> None
              | a # q \<Rightarrow> Some (st\<lparr>request_queue := q, workers := (workers st)[i := InFlight a]\<rparr>))
         | InFlight a \<Rightarrow> None
         | Exited \<Rightarrow> None)
      else None)"

definition worker_respond ::
  "'j json_library \<Rightarrow> nat \<Rightarrow> transport_result \<Rightarrow> real \<Rightarrow> app \<Rightarrow> app option"
where
  "worker_respond lib i tr elapsed st =
     (if i < length (workers st) then
        (case workers st ! i of
           InFlight a \<Rightarrow> Some (respond lib i a tr elapsed st)
         | AtWhile \<Rightarrow> None
         | AtGet \<Rightarrow> None
         | Exited \<Rightarrow> None)
      else None)"

text \<open>
  The loop of one thread when nothing else runs in between: \<open>net\<close> gives the result and
  the elapsed time of the transport calls, in the order in which they are made. An
  exception that the loop does not catch ends it with the thread.
\<close>

function worker_loop ::
  "'j json_library \<Rightarrow> (nat \<Rightarrow> transport_result \<times> real) \<Rightarrow> nat \<Rightarrow> nat \<Rightarrow> app \<Rightarrow> app"
where
  "worker_loop lib net k i st =
     (case request_queue st of
        [] \<Rightarrow> st\<lparr>workers := (workers st)[i := Exited]\<rparr>
      | a # q \<Rightarrow>
          (let st1 = respond lib i a (fst (net k)) (snd (net k))
                       (st\<lparr>request_queue := q, workers := (workers st)[i := InFlight a]\<rparr>)
           in if workers st1 ! i = Exited then st1 else worker_loop lib net (Suc k) i st1))"
  by pat_completeness auto
termination
  by (relation "measure (\<lambda>(lib, net, k, i, st). length (request_queue st))")
     (auto simp: respond_def store_outcome_def Let_def
           split: transport_result.splits option.splits)

declare worker_loop.simps [simp del]

definition publishes :: "'j json_library \<Rightarrow> transport_result \<Rightarrow> bool" where
  \<comment> \<open>the exchange ends with a put on the response queue\<close>
  "publishes lib tr =
     (case tr of Response code reason hs raw \<Rightarrow> format_body lib raw \<noteq> None
               | RequestException msg \<Rightarrow> True
               | OtherException \<Rightarrow> False)"

definition poll_body :: "nat \<times> result \<Rightarrow> app \<Rightarrow> py_error + app" where
  \<comment> \<open>one pair taken from the response queue: the body of the \<open>while True\<close>\<close>
  "poll_body p st =
     (if history st = [] then Inl IndexError
      else Inr (refresh_history_listbox
                  (if item_eq (heap st ! fst p) (heap st ! last (history st))
                   then display_response (snd p) st else st)))"

function poll_queue :: "app \<Rightarrow> py_error option \<times> app" where
  "poll_queue st =
     (case response_queue st of
        [] \<Rightarrow> (None, st)
      | p # q \<Rightarrow>
          (case poll_body p (st\<lparr>response_queue := q\<rparr>) of
             Inl e \<Rightarrow> (Some e, st\<lparr>response_queue := q\<rparr>)
           | Inr st1 \<Rightarrow> poll_queue st1))"
  by pat_completeness auto
termination
  by (relation "measure (\<lambda>st. length (response_queue st))")
     (auto simp: poll_body_def refresh_history_listbox_def display_response_def
           split: if_splits)

declare poll_queue.simps [simp del]

definition delete_selected_history :: "app \<Rightarrow> py_error option \<times> app" where
  "delete_selected_history st =
     (case curselection st of
        [] \<Rightarrow> (None, st)
      | sel # _ \<Rightarrow>
          (case py_del (history st) (int (length (history st)) - 1 - int sel) of
             Inl e \<Rightarrow> (Some e, st)
           | Inr h \<Rightarrow> (None, refresh_history_listbox (st\<lparr>history := h\<rparr>))))"

definition clear_history :: "bool \<Rightarrow> app \<Rightarrow> app" where
  \<comment> \<open>the argument is the answer to the confirmation box\<close>
  "clear_history yes st = (if yes then refresh_history_listbox (st\<lparr>history := []\<rparr>) else st)"

section \<open>Executions\<close>

text \<open>
  The main thread runs one handler at a time, and the worker threads run between handlers:
  an execution is a sequence of events, each a handler of the main thread or one move of
  one worker thread. The handlers that load a history entry only write the form widgets,
  whose contents are the arguments of \<open>Send\<close>; they are left out. An exception that
  leaves a handler is reported by the toolkit and the main loop goes on, with the state
  the handler had reached; the poll is scheduled again in either case.
\<close>

datatype http_verb = GET | POST | PUT | PATCH | DELETE | HEAD | OPTIONS

fun verb_name :: "http_verb \<Rightarrow> string" where
  "verb_name GET = ''GET''"
| "verb_name POST = ''POST''"
| "verb_name PUT = ''PUT''"
| "verb_name PATCH = ''PATCH''"
| "verb_name DELETE = ''DELETE''"
| "verb_name HEAD = ''HEAD''"
| "verb_name OPTIONS = ''OPTIONS''"

datatype event =
    Send http_verb string string string \<comment> \<open>the Send button: menu choice, URL, headers, body\<close>
  | Select nat \<comment> \<open>a click on a row of the listbox\<close>
  | Delete
  | Clear bool
  | Poll
  | WorkerStep nat
  | Respond nat transport_result real \<comment> \<open>the transport call of a thread returns\<close>

definition step :: "'j json_library \<Rightarrow> event \<Rightarrow> app \<Rightarrow> app option" where
  "step lib e st =
     (case e of
        Send m u h b \<Rightarrow> Some (queue_request (verb_name m) u h b st)
      | Select i \<Rightarrow> if i < length (listbox st) then Some (st\<lparr>curselection := [i]\<rparr>) else None
      | Delete \<Rightarrow> Some (snd (delete_selected_history st))
      | Clear yes \<Rightarrow> Some (clear_history yes st)
      | Poll \<Rightarrow> Some (snd (poll_queue st))
      | WorkerStep i \<Rightarrow> worker_step i st
      | Respond i tr elapsed \<Rightarrow> worker_respond lib i tr elapsed st)"

fun run :: "'j json_library \<Rightarrow> event list \<Rightarrow> app \<Rightarrow> app option" where
  "run lib [] st = Some st"
| "run lib (e # es) st = (case step lib e st of None \<Rightarrow> None | Some st1 \<Rightarrow> run lib es st1)"

definition reachable :: "'j json_library \<Rightarrow> app \<Rightarrow> bool" where
  "reachable lib st = (\<exists>es. run lib es init = Some st)"

section \<open>Invariants of the executions\<close>

text \<open>
  An address is pending while it waits in the request queue or is in flight in a thread.
  The invariant says that the listbox mirrors the history and a selected row exists, that
  no address is pending twice and every pending address is allocated, and that a pending
  record still has the outcome fields it was created with.
\<close>

definition inflight :: "wstate list \<Rightarrow> nat \<Rightarrow> nat \<Rightarrow> bool" where
  "inflight ws i a = (i < length ws \<and> ws ! i = InFlight a)"

definition pending :: "nat \<Rightarrow> app \<Rightarrow> bool" where
  "pending a st = (a \<in> set (request_queue st) \<or> (\<exists>i. inflight (workers st) i a))"

definition fresh :: "RequestHistoryItem \<Rightarrow> bool" where
  "fresh item =
     (response_status item = None \<and> response_time item = None \<and> response_preview item = [])"

definition selection_ok :: "app \<Rightarrow> bool" where
  "selection_ok st =
     (length (listbox st) = length (history st) \<and>
      (\<forall>s\<in>set (curselection st). s < length (listbox st)))"

definition queue_ok :: "app \<Rightarrow> bool" where
  "queue_ok st =
     (distinct (request_queue st) \<and>
      (\<forall>a. pending a st \<longrightarrow> a < length (heap st)) \<and>
      (\<forall>i a. inflight (workers st) i a \<longrightarrow> a \<notin> set (request_queue st)) \<and>
      (\<forall>i j a. inflight (workers st) i a \<longrightarrow> inflight (workers st) j a \<longrightarrow> i = j))"

definition pending_fresh :: "app \<Rightarrow> bool" where
  "pending_fresh st = (\<forall>a. pending a st \<longrightarrow> fresh (heap st ! a))"

definition inv :: "app \<Rightarrow> bool" where
  "inv st = (selection_ok st \<and> queue_ok st \<and> pending_fresh st)"

definition lib_raises :: "unit json_library" where
  \<comment> \<open>a json library that raises on every body outside the modelled fragment\<close>
  "lib_raises = \<lparr>lib_loads = (\<lambda>b. OtherFails), lib_dumps = (\<lambda>v. None)\<rparr>"

definition panel :: "app \<Rightarrow> string \<times> elapsed_text \<times> string \<times> string" where
  \<comment> \<open>what the live response panel shows\<close>
  "panel st = (status_var st, elapsed_var st, response_headers_text st, response_body_text st)"

definition result_panel :: "result \<Rightarrow> string \<times> elapsed_text \<times> string \<times> string" where
  \<comment> \<open>what the panel shows once \<open>_display_response\<close> has run on a result\<close>
  "result_panel r = (result_status r, result_elapsed r, result_headers r, result_body r)"

section \<open>Example states\<close>

text \<open>
  Four states that executions from the initial state reach; the facts that they are
  reached are proved below.
\<close>

definition unset_item :: RequestHistoryItem where
  \<comment> \<open>the record of a GET without headers or body, as \<open>_queue_request\<close> creates it\<close>
  "unset_item =
     \<lparr>http_method = ''GET'', url = ''http://h/'', headers = [], body = [],
      response_status = None, response_time = None, response_preview = []\<rparr>"

definition done_item :: RequestHistoryItem where
  \<comment> \<open>the same record after a response 200 with text \<open>x\<close> in one second\<close>
  "done_item =
     \<lparr>http_method = ''GET'', url = ''http://h/'', headers = [], body = [],
      response_status = Some 200, response_time = Some 1, response_preview = ''x''\<rparr>"

definition two_queued :: app where
  \<comment> \<open>two submissions, the first in flight, the second waiting\<close>
  "two_queued =
     \<lparr>heap = [unset_item, unset_item],
      request_queue = [1], response_queue = [], history = [0, 1], workers = [InFlight 0],
      listbox = [(''GET'', ''http://h/'', ''...'', None), (''GET'', ''http://h/'', ''...'', None)],
      curselection = [], status_var = ''Pending...'', elapsed_var = Dash,
      response_headers_text = [], response_body_text = [], dialogs = []\<rparr>"

definition cleared_done :: app where
  \<comment> \<open>one submission, the history cleared while it was in flight, then its response\<close>
  "cleared_done =
     \<lparr>heap = [done_item],
      request_queue = [],
      response_queue =
        [(0, \<lparr>result_status = ''200 OK'', result_elapsed = Seconds 1,
               result_headers = ''{}'', result_body = ''x''\<rparr>)],
      history = [], workers = [AtWhile], listbox = [], curselection = [],
      status_var = ''Pending...'', elapsed_var = Dash,
      response_headers_text = [], response_body_text = [], dialogs = []\<rparr>"

definition twins_done :: app where
  \<comment> \<open>two equal submissions, both answered alike before the next poll\<close>
  "twins_done =
     \<lparr>heap = [done_item, done_item],
      request_queue = [],
      response_queue =
        [(0, \<lparr>result_status = ''200 OK'', result_elapsed = Seconds 1,
               result_headers = ''{}'', result_body = ''x''\<rparr>),
         (1, \<lparr>result_status = ''200 Fine'', result_elapsed = Seconds 1,
               result_headers = ''{}'', result_body = ''x''\<rparr>)],
      history = [0, 1], workers = [AtWhile],
      listbox = [(''GET'', ''http://h/'', ''...'', None), (''GET'', ''http://h/'', ''...'', None)],
      curselection = [], status_var = ''Pending...'', elapsed_var = Dash,
      response_headers_text = [], response_body_text = [], dialogs = []\<rparr>"

definition stranded :: app where
  \<comment> \<open>two submissions, the transport call of the first ended by an exception that is
      not a \<open>RequestException\<close>\<close>
  "stranded =
     \<lparr>heap = [unset_item\<lparr>url := ''http://a..b/''\<rparr>, unset_item],
      request_queue = [1], response_queue = [], history = [0, 1], workers = [Exited],
      listbox = [(''GET'', ''http://h/'', ''...'', None), (''GET'', ''http://a..b/'', ''...'', None)],
      curselection = [], status_var = ''Pending...'', elapsed_var = Dash,
      response_headers_text = [], response_body_text = [], dialogs = []\<rparr>"

section \<open>Facts about the string operations\<close>

lemma strip_Nil: "strip [] = []"
  by (simp add: strip_def)

lemma strip_empty_iff: "strip u = [] \<longleftrightarrow> (\<forall>c\<in>set u. isspace c)"
proof
  assume "\<forall>c\<in>set u. isspace c"
  then have d: "dropWhile isspace u = []" by simp
  show "strip u = []" unfolding strip_def d by simp
next
  assume e: "strip u = []"
  show "\<forall>c\<in>set u. isspace c"
  proof (cases "dropWhile isspace u = []")
    case True
    then show ?thesis by simp
  next
    case False
    then have "\<not> isspace (hd (dropWhile isspace u))" by (rule hd_dropWhile)
    moreover from e have "\<forall>c\<in>set (dropWhile isspace u). isspace c"
      unfolding strip_def by simp
    ultimately show ?thesis using False by (meson hd_in_set)
  qed
qed

lemma colon_not_blank: "CHR '':'' \<in> set l \<Longrightarrow> strip l \<noteq> []"
proof -
  assume c: "CHR '':'' \<in> set l"
  have "\<not> isspace (CHR '':'')" by (simp add: isspace_def whitespace_def)
  with c show ?thesis unfolding strip_empty_iff by blast
qed

lemma split_colon_first:
  assumes "CHR '':'' \<notin> set x"
  shows "split_colon (x @ CHR '':'' # y) = (x, y)"
proof -
  let ?P = "\<lambda>c. c \<noteq> CHR '':''"
  have all: "\<And>c. c \<in> set x \<Longrightarrow> ?P c" using assms by auto
  have "takeWhile ?P (x @ CHR '':'' # y) = x"
    using takeWhile_append2[of x ?P "CHR '':'' # y"] all by simp
  moreover have "dropWhile ?P (x @ CHR '':'' # y) = CHR '':'' # y"
    using dropWhile_append2[of x ?P "CHR '':'' # y"] all by simp
  ultimately show ?thesis by (simp add: split_colon_def)
qed

section \<open>Header parsing as a fold\<close>

lemma parse_header_lines_fold:
  "parse_header_lines ls hs ws =
     (fold (\<lambda>l. AList.update (fst (header_of_line l)) (snd (header_of_line l)))
        (filter (\<lambda>l. CHR '':'' \<in> set l) ls) hs,
      ws @ map missing_colon_warning (filter (\<lambda>l. strip l \<noteq> [] \<and> CHR '':'' \<notin> set l) ls))"
proof (induction ls arbitrary: hs ws)
  case Nil
  show ?case by simp
next
  case (Cons l ls)
  show ?case
  proof (cases "CHR '':'' \<in> set l")
    case True
    then have "strip l \<noteq> []" by (rule colon_not_blank)
    with True show ?thesis by (simp add: Cons.IH)
  next
    case False
    then show ?thesis by (simp add: Cons.IH)
  qed
qed

lemma map_of_fold_update:
  "map_of (fold (\<lambda>l. AList.update (fst (g l)) (snd (g l))) ls hs) = map_of (rev (map g ls) @ hs)"
proof (induction ls arbitrary: hs)
  case Nil
  show ?case by simp
next
  case (Cons l ls)
  show ?case
    by (simp add: Cons.IH update_conv' map_add_def fun_eq_iff split: option.splits prod.splits)
qed

lemma parse_headers_map:
  "map_of (fst (parse_headers raw)) =
     map_of (rev (map header_of_line (filter (\<lambda>l. CHR '':'' \<in> set l) (splitlines (strip raw)))))"
  by (simp add: parse_headers_def parse_header_lines_fold map_of_fold_update)

lemma parse_headers_warnings:
  "snd (parse_headers raw) =
     map missing_colon_warning
       (filter (\<lambda>l. strip l \<noteq> [] \<and> CHR '':'' \<notin> set l) (splitlines (strip raw)))"
  by (simp add: parse_headers_def parse_header_lines_fold)

section \<open>Submission\<close>

lemma queue_request_empty:
  "strip u = [] \<Longrightarrow>
   queue_request m u h b st =
     st\<lparr>dialogs := dialogs st @ [ShowError ''Missing URL'' ''Please provide a URL before sending.'']\<rparr>"
  by (simp add: queue_request_def)

lemma queue_request_ok:
  "strip u \<noteq> [] \<Longrightarrow>
   heap (queue_request m u h b st) =
     heap st @ [\<lparr>http_method = upper m, url = strip u, headers = fst (parse_headers h),
                 body = strip b, response_status = None, response_time = None,
                 response_preview = []\<rparr>] \<and>
   history (queue_request m u h b st) = history st @ [length (heap st)] \<and>
   request_queue (queue_request m u h b st) = request_queue st @ [length (heap st)] \<and>
   response_queue (queue_request m u h b st) = response_queue st \<and>
   dialogs (queue_request m u h b st) = dialogs st @ snd (parse_headers h) \<and>
   workers (queue_request m u h b st) =
     (if request_queue st = [] then workers st @ [AtWhile] else workers st)"
  by (simp add: queue_request_def Let_def refresh_history_listbox_def)

lemma parse_headers_example:
  "parse_headers ''X-Test: 1\<newline>Bad-Line\<newline>Y: 2'' =
     ([(''X-Test'', ''1''), (''Y'', ''2'')], [missing_colon_warning ''Bad-Line''])"
  by (simp add: parse_headers_def strip_def isspace_def whitespace_def splitlines_def
        linebreaks_def split_colon_def header_of_line_def)

lemma header_of_line_first:
  "CHR '':'' \<notin> set x \<Longrightarrow> header_of_line (x @ CHR '':'' # y) = (strip x, strip y)"
  by (simp add: header_of_line_def split_colon_first)

lemma parse_headers_last_wins:
  assumes ls: "splitlines (strip raw) = ls1 @ l # ls2"
    and l: "l = x @ CHR '':'' # y" "CHR '':'' \<notin> set x"
    and later: "\<forall>l'\<in>set ls2. CHR '':'' \<in> set l' \<longrightarrow> fst (header_of_line l') \<noteq> strip x"
  shows "map_of (fst (parse_headers raw)) (strip x) = Some (strip y)"
proof -
  let ?P = "\<lambda>l. CHR '':'' \<in> set l"
  let ?after = "rev (map header_of_line (filter ?P ls2))"
  let ?before = "rev (map header_of_line (filter ?P ls1))"
  have hl: "header_of_line l = (strip x, strip y)"
    using l by (simp add: header_of_line_first)
  have pl: "?P l" using l by simp
  have "map_of (fst (parse_headers raw)) = map_of (?after @ (strip x, strip y) # ?before)"
    using pl by (simp add: parse_headers_map ls hl)
  moreover have "strip x \<notin> fst ` set ?after"
    using later by auto
  then have "map_of ?after (strip x) = None"
    by (simp add: map_of_eq_None_iff)
  ultimately show ?thesis
    by (simp add: map_add_def)
qed

section \<open>Facts about the invariant\<close>

lemma inflight_append: "inflight (ws @ [AtWhile]) i a = inflight ws i a"
  by (auto simp: inflight_def nth_append)

lemma inflight_update:
  "k < length ws \<Longrightarrow> inflight (ws[k := w]) i a = (if i = k then w = InFlight a else inflight ws i a)"
  by (auto simp: inflight_def)

lemma inflight_Nil: "\<not> inflight [] i a"
  by (simp add: inflight_def)

lemma inv_init: "inv init"
  by (simp add: inv_def selection_ok_def queue_ok_def pending_fresh_def pending_def init_def
        inflight_Nil)

lemma refresh_fields [simp]:
  "heap (refresh_history_listbox st) = heap st"
  "request_queue (refresh_history_listbox st) = request_queue st"
  "response_queue (refresh_history_listbox st) = response_queue st"
  "history (refresh_history_listbox st) = history st"
  "workers (refresh_history_listbox st) = workers st"
  "dialogs (refresh_history_listbox st) = dialogs st"
  "curselection (refresh_history_listbox st) = []"
  "length (listbox (refresh_history_listbox st)) = length (history st)"
  "status_var (refresh_history_listbox st) = status_var st"
  "elapsed_var (refresh_history_listbox st) = elapsed_var st"
  "response_headers_text (refresh_history_listbox st) = response_headers_text st"
  "response_body_text (refresh_history_listbox st) = response_body_text st"
  by (simp_all add: refresh_history_listbox_def)

lemma display_fields [simp]:
  "heap (display_response r st) = heap st"
  "request_queue (display_response r st) = request_queue st"
  "response_queue (display_response r st) = response_queue st"
  "history (display_response r st) = history st"
  "workers (display_response r st) = workers st"
  "dialogs (display_response r st) = dialogs st"
  "curselection (display_response r st) = curselection st"
  "listbox (display_response r st) = listbox st"
  by (simp_all add: display_response_def)

lemma poll_body_fields:
  assumes "poll_body p st = Inr st1"
  shows "heap st1 = heap st" "request_queue st1 = request_queue st"
    "response_queue st1 = response_queue st" "history st1 = history st"
    "workers st1 = workers st" "dialogs st1 = dialogs st"
    "curselection st1 = []" "length (listbox st1) = length (history st)"
  using assms by (auto simp: poll_body_def split: if_splits)

lemma poll_queue_fields:
  "heap (snd (poll_queue st)) = heap st \<and> request_queue (snd (poll_queue st)) = request_queue st \<and>
   history (snd (poll_queue st)) = history st \<and> workers (snd (poll_queue st)) = workers st \<and>
   dialogs (snd (poll_queue st)) = dialogs st"
proof (induction st rule: poll_queue.induct)
  case (1 st)
  show ?case
  proof (cases "response_queue st")
    case Nil
    then show ?thesis by (simp add: poll_queue.simps[of st])
  next
    case (Cons p q)
    show ?thesis
    proof (cases "poll_body p (st\<lparr>response_queue := q\<rparr>)")
      case (Inl e)
      with Cons show ?thesis by (simp add: poll_queue.simps[of st])
    next
      case (Inr st1)
      from "1.IH"[OF Cons Inr] poll_body_fields[OF Inr] Cons Inr
      show ?thesis by (simp add: poll_queue.simps[of st])
    qed
  qed
qed

lemma poll_queue_selection_ok:
  "selection_ok st \<Longrightarrow> selection_ok (snd (poll_queue st))"
proof (induction st rule: poll_queue.induct)
  case (1 st)
  show ?case
  proof (cases "response_queue st")
    case Nil
    with "1.prems" show ?thesis by (simp add: poll_queue.simps[of st])
  next
    case (Cons p q)
    show ?thesis
    proof (cases "poll_body p (st\<lparr>response_queue := q\<rparr>)")
      case (Inl e)
      with Cons "1.prems" show ?thesis
        by (auto simp: poll_queue.simps[of st] selection_ok_def)
    next
      case (Inr st1)
      have "selection_ok st1"
        using poll_body_fields[OF Inr] by (simp add: selection_ok_def)
      from "1.IH"[OF Cons Inr this] Cons Inr
      show ?thesis by (simp add: poll_queue.simps[of st])
    qed
  qed
qed

lemma queue_part_cong:
  assumes "request_queue st' = request_queue st" "workers st' = workers st"
    "heap st' = heap st"
  shows "queue_ok st' = queue_ok st" "pending_fresh st' = pending_fresh st"
    "pending a st' = pending a st"
  unfolding queue_ok_def pending_fresh_def pending_def assms by (rule refl)+

lemma inv_same_queues:
  assumes "inv st" "selection_ok st'" "request_queue st' = request_queue st"
    "workers st' = workers st" "heap st' = heap st"
  shows "inv st'"
  using assms(1,2) queue_part_cong(1,2)[OF assms(3-5)] unfolding inv_def by blast

lemma inv_poll: "inv st \<Longrightarrow> inv (snd (poll_queue st))"
proof (rule inv_same_queues)
  assume i: "inv st"
  then show "inv st" .
  from i have "selection_ok st" by (simp add: inv_def)
  then show "selection_ok (snd (poll_queue st))" by (rule poll_queue_selection_ok)
qed (simp_all add: poll_queue_fields)

lemma inv_delete: "inv st \<Longrightarrow> inv (snd (delete_selected_history st))"
proof -
  assume i: "inv st"
  show ?thesis
  proof (cases "curselection st")
    case Nil
    with i show ?thesis by (simp add: delete_selected_history_def)
  next
    case (Cons sel rest)
    show ?thesis
    proof (cases "py_del (history st) (int (length (history st)) - 1 - int sel)")
      case (Inl e)
      with Cons i show ?thesis by (simp add: delete_selected_history_def)
    next
      case (Inr h)
      have "inv (refresh_history_listbox (st\<lparr>history := h\<rparr>))"
        by (rule inv_same_queues[OF i]) (simp_all add: selection_ok_def)
      then show ?thesis using Cons Inr by (simp add: delete_selected_history_def)
    qed
  qed
qed

lemma inv_clear: "inv st \<Longrightarrow> inv (clear_history yes st)"
proof (cases yes)
  case False
  assume "inv st"
  with False show ?thesis by (simp add: clear_history_def)
next
  case True
  assume i: "inv st"
  have "inv (refresh_history_listbox (st\<lparr>history := []\<rparr>))"
    by (rule inv_same_queues[OF i]) (simp_all add: selection_ok_def)
  then show ?thesis using True by (simp add: clear_history_def)
qed

lemma inv_select: "inv st \<Longrightarrow> i < length (listbox st) \<Longrightarrow> inv (st\<lparr>curselection := [i]\<rparr>)"
proof (rule inv_same_queues)
  assume "inv st" "i < length (listbox st)"
  then show "selection_ok (st\<lparr>curselection := [i]\<rparr>)"
    by (auto simp: inv_def selection_ok_def)
qed simp_all

lemma queue_request_selection_ok:
  "selection_ok st \<Longrightarrow> selection_ok (queue_request m u h b st)"
  by (auto simp: queue_request_def Let_def selection_ok_def)

lemma pending_lt: "queue_ok st \<Longrightarrow> pending a st \<Longrightarrow> a < length (heap st)"
  by (simp add: queue_ok_def)

lemma queue_request_pending:
  "strip u \<noteq> [] \<Longrightarrow>
   pending a (queue_request m u h b st) = (pending a st \<or> a = length (heap st))"
  by (auto simp: pending_def queue_request_ok inflight_append)

lemma queue_request_queue_ok:
  assumes ok: "queue_ok st" and u: "strip u \<noteq> []"
  shows "queue_ok (queue_request m u h b st)"
proof -
  let ?st = "queue_request m u h b st"
  let ?n = "length (heap st)"
  have lt: "\<And>a. pending a st \<Longrightarrow> a < ?n" using ok by (simp add: queue_ok_def)
  have q: "request_queue ?st = request_queue st @ [?n]" using u by (simp add: queue_request_ok)
  have h: "length (heap ?st) = Suc ?n" using u by (simp add: queue_request_ok)
  have w: "\<And>i a. inflight (workers ?st) i a = inflight (workers st) i a"
    using u by (simp add: queue_request_ok inflight_append)
  have n_new: "\<not> pending ?n st" using lt by blast
  have d: "distinct (request_queue ?st)"
    using ok n_new by (simp add: q queue_ok_def pending_def)
  have p: "\<forall>a. pending a ?st \<longrightarrow> a < length (heap ?st)"
    using lt by (auto simp: queue_request_pending[OF u] h less_Suc_eq)
  have f: "\<forall>i a. inflight (workers ?st) i a \<longrightarrow> a \<notin> set (request_queue ?st)"
    using ok n_new by (auto simp: w q queue_ok_def pending_def)
  have g: "\<forall>i j a. inflight (workers ?st) i a \<longrightarrow> inflight (workers ?st) j a \<longrightarrow> i = j"
    using ok unfolding w queue_ok_def by blast
  show ?thesis unfolding queue_ok_def using d p f g by blast
qed

lemma fresh_new:
  "fresh \<lparr>http_method = m, url = u, headers = hs, body = b, response_status = None,
          response_time = None, response_preview = []\<rparr>"
  by (simp add: fresh_def)

lemma queue_request_pending_fresh:
  assumes ok: "queue_ok st" and pf: "pending_fresh st" and u: "strip u \<noteq> []"
  shows "pending_fresh (queue_request m u h b st)"
  unfolding pending_fresh_def
proof (intro allI impI)
  fix a
  let ?st = "queue_request m u h b st"
  assume "pending a ?st"
  then consider "pending a st" | "a = length (heap st)"
    using queue_request_pending[OF u] by blast
  then show "fresh (heap ?st ! a)"
  proof cases
    case 1
    then have "a < length (heap st)" using ok by (rule pending_lt[rotated])
    then have "heap ?st ! a = heap st ! a" using u by (simp add: queue_request_ok nth_append)
    with 1 pf show ?thesis by (simp add: pending_fresh_def)
  next
    case 2
    then show ?thesis using u by (simp add: queue_request_ok fresh_new)
  qed
qed

lemma inv_queue_request: "inv st \<Longrightarrow> inv (queue_request m u h b st)"
proof (cases "strip u = []")
  case True
  assume i: "inv st"
  have "inv (st\<lparr>dialogs := dialogs st @ [ShowError ''Missing URL'' ''Please provide a URL before sending.'']\<rparr>)"
    by (rule inv_same_queues[OF i]) (use i in \<open>auto simp: inv_def selection_ok_def\<close>)
  with True show ?thesis by (simp add: queue_request_empty)
next
  case False
  assume i: "inv st"
  then show ?thesis
    unfolding inv_def
    using queue_request_selection_ok queue_request_queue_ok[OF _ False]
      queue_request_pending_fresh[OF _ _ False]
    by blast
qed

lemma worker_step_cases:
  assumes "worker_step i st = Some st'"
  obtains (test) "i < length (workers st)" "workers st ! i = AtWhile"
      "st' = st\<lparr>workers := (workers st)[i := (if request_queue st = [] then Exited else AtGet)]\<rparr>"
    | (get) a q where "i < length (workers st)" "workers st ! i = AtGet"
      "request_queue st = a # q"
      "st' = st\<lparr>request_queue := q, workers := (workers st)[i := InFlight a]\<rparr>"
  using assms by (auto simp: worker_step_def split: if_splits wstate.splits list.splits)

lemma worker_respond_cases:
  assumes "worker_respond lib i tr el st = Some st'"
  obtains a where "i < length (workers st)" "workers st ! i = InFlight a"
    "st' = respond lib i a tr el st"
  using assms by (auto simp: worker_respond_def split: if_splits wstate.splits)

lemma respond_fields:
  "request_queue (respond lib i a tr el st) = request_queue st"
  "history (respond lib i a tr el st) = history st"
  "listbox (respond lib i a tr el st) = listbox st"
  "curselection (respond lib i a tr el st) = curselection st"
  "dialogs (respond lib i a tr el st) = dialogs st"
  "length (heap (respond lib i a tr el st)) = length (heap st)"
  "b \<noteq> a \<Longrightarrow> heap (respond lib i a tr el st) ! b = heap st ! b"
  "\<exists>w. workers (respond lib i a tr el st) = (workers st)[i := w] \<and> (w = AtWhile \<or> w = Exited)"
  by (auto simp: respond_def store_outcome_def Let_def split: transport_result.splits option.splits)

lemma inflight_update_idle:
  assumes "i < length ws" "\<And>a. ws ! i \<noteq> InFlight a" "\<And>a. w \<noteq> InFlight a"
  shows "inflight (ws[i := w]) k b = inflight ws k b"
  using assms by (cases "k = i") (auto simp: inflight_def)

lemma inv_worker_test:
  assumes i: "inv st" and lt: "i < length (workers st)" and at: "workers st ! i = AtWhile"
    and w: "w = Exited \<or> w = AtGet"
  shows "inv (st\<lparr>workers := (workers st)[i := w]\<rparr>)"
proof -
  let ?st = "st\<lparr>workers := (workers st)[i := w]\<rparr>"
  have fl: "\<And>k b. inflight (workers ?st) k b = inflight (workers st) k b"
    using lt at w by (auto simp: inflight_update_idle)
  have "selection_ok ?st" using i by (auto simp: inv_def selection_ok_def)
  moreover have "queue_ok ?st"
    using i unfolding inv_def queue_ok_def pending_def fl by simp
  moreover have "pending_fresh ?st"
    using i unfolding inv_def pending_fresh_def pending_def fl by simp
  ultimately show ?thesis by (simp add: inv_def)
qed

lemma inv_worker_get:
  assumes i: "inv st" and lt: "i < length (workers st)" and at: "workers st ! i = AtGet"
    and q: "request_queue st = a # q"
  shows "inv (st\<lparr>request_queue := q, workers := (workers st)[i := InFlight a]\<rparr>)"
proof -
  let ?st = "st\<lparr>request_queue := q, workers := (workers st)[i := InFlight a]\<rparr>"
  have ok: "queue_ok st" and pf: "pending_fresh st" using i by (simp_all add: inv_def)
  have fl: "\<And>k b. inflight (workers ?st) k b = (if k = i then b = a else inflight (workers st) k b)"
    using lt by (auto simp: inflight_update)
  have fl': "\<And>k b. inflight ((workers st)[i := InFlight a]) k b
               = (if k = i then b = a else inflight (workers st) k b)"
    using lt by (auto simp: inflight_update)
  have old_i: "\<And>b. \<not> inflight (workers st) i b" using at by (simp add: inflight_def)
  have da: "a \<notin> set q" "distinct q" using ok q by (simp_all add: queue_ok_def)
  have nq: "\<And>k b. inflight (workers st) k b \<Longrightarrow> b \<noteq> a \<and> b \<notin> set q"
    using ok q unfolding queue_ok_def by auto
  have uq: "\<And>k j b. inflight (workers st) k b \<Longrightarrow> inflight (workers st) j b \<Longrightarrow> k = j"
    using ok unfolding queue_ok_def by blast
  have pend: "\<And>b. pending b ?st \<Longrightarrow> pending b st"
    unfolding pending_def fl using q by (auto split: if_splits)
  have "selection_ok ?st" using i by (auto simp: inv_def selection_ok_def)
  moreover have "queue_ok ?st"
    unfolding queue_ok_def
  proof (intro conjI allI impI)
    show "distinct (request_queue ?st)" using da by simp
  next
    fix b assume "pending b ?st"
    then have "pending b st" by (rule pend)
    then show "b < length (heap ?st)" using ok by (simp add: queue_ok_def)
  next
    fix k b assume "inflight (workers ?st) k b"
    then show "b \<notin> set (request_queue ?st)"
      using da nq by (auto simp: fl' split: if_splits)
  next
    fix k j b assume "inflight (workers ?st) k b" "inflight (workers ?st) j b"
    then show "k = j"
      using nq uq by (auto simp: fl' split: if_splits)
  qed
  moreover have "pending_fresh ?st"
    unfolding pending_fresh_def
  proof (intro allI impI)
    fix b assume "pending b ?st"
    then have "pending b st" by (rule pend)
    then show "fresh (heap ?st ! b)" using pf by (simp add: pending_fresh_def)
  qed
  ultimately show ?thesis by (simp add: inv_def)
qed

lemma inv_worker_step: "inv st \<Longrightarrow> worker_step i st = Some st' \<Longrightarrow> inv st'"
proof -
  assume i: "inv st" and s: "worker_step i st = Some st'"
  from s show ?thesis
  proof (cases rule: worker_step_cases)
    case test
    then show ?thesis using inv_worker_test[OF i test(1,2)] by simp
  next
    case (get a q)
    then show ?thesis using inv_worker_get[OF i get(1,2,3)] by simp
  qed
qed

lemma respond_not_pending:
  assumes ok: "queue_ok st" and lt: "i < length (workers st)"
    and at: "workers st ! i = InFlight a"
  shows "\<not> pending a (respond lib i a tr el st)"
    and "pending b (respond lib i a tr el st) \<Longrightarrow> pending b st \<and> b \<noteq> a"
proof -
  let ?st = "respond lib i a tr el st"
  obtain w where w: "workers ?st = (workers st)[i := w]" "w = AtWhile \<or> w = Exited"
    using respond_fields(8) by blast
  have fl: "\<And>k b. inflight (workers ?st) k b = (k \<noteq> i \<and> inflight (workers st) k b)"
    using lt w by (auto simp: inflight_update)
  have here: "inflight (workers st) i a" using lt at by (simp add: inflight_def)
  have nq: "a \<notin> set (request_queue st)" using ok here unfolding queue_ok_def by blast
  have uq: "\<And>k. inflight (workers st) k a \<Longrightarrow> k = i"
    using ok here unfolding queue_ok_def by blast
  show "\<not> pending a ?st"
    unfolding pending_def fl respond_fields using nq uq by blast
  show "pending b ?st \<Longrightarrow> pending b st \<and> b \<noteq> a"
    unfolding pending_def fl respond_fields using nq uq by blast
qed

lemma inv_respond:
  assumes i: "inv st" and lt: "i < length (workers st)" and at: "workers st ! i = InFlight a"
  shows "inv (respond lib i a tr el st)"
proof -
  let ?st = "respond lib i a tr el st"
  have ok: "queue_ok st" and pf: "pending_fresh st" using i by (simp_all add: inv_def)
  obtain w where w: "workers ?st = (workers st)[i := w]" "w = AtWhile \<or> w = Exited"
    using respond_fields(8) by blast
  have fl: "\<And>k b. inflight (workers ?st) k b = (k \<noteq> i \<and> inflight (workers st) k b)"
    using lt w by (auto simp: inflight_update)
  note pend = respond_not_pending(2)[OF ok lt at]
  have "selection_ok ?st" using i by (auto simp: inv_def selection_ok_def respond_fields)
  moreover have "queue_ok ?st"
    unfolding queue_ok_def
  proof (intro conjI allI impI)
    show "distinct (request_queue ?st)" using ok by (simp add: respond_fields queue_ok_def)
  next
    fix b assume "pending b ?st"
    then have "pending b st" using pend by blast
    then show "b < length (heap ?st)" using ok by (simp add: queue_ok_def respond_fields)
  next
    fix k b assume "inflight (workers ?st) k b"
    then show "b \<notin> set (request_queue ?st)"
      using ok unfolding fl respond_fields queue_ok_def by blast
  next
    fix k j b assume "inflight (workers ?st) k b" "inflight (workers ?st) j b"
    then show "k = j" using ok unfolding fl queue_ok_def by blast
  qed
  moreover have "pending_fresh ?st"
    unfolding pending_fresh_def
  proof (intro allI impI)
    fix b assume "pending b ?st"
    then have "pending b st" "b \<noteq> a" using pend by blast+
    then show "fresh (heap ?st ! b)" using pf by (simp add: pending_fresh_def respond_fields)
  qed
  ultimately show ?thesis by (simp add: inv_def)
qed

lemma inv_step: "inv st \<Longrightarrow> step lib e st = Some st' \<Longrightarrow> inv st'"
proof (cases e)
  case (Send m u h b)
  assume "inv st" "step lib e st = Some st'"
  with Send show ?thesis by (auto simp: step_def inv_queue_request)
next
  case (Select i)
  assume "inv st" "step lib e st = Some st'"
  with Select show ?thesis by (auto simp: step_def inv_select split: if_splits)
next
  case Delete
  assume "inv st" "step lib e st = Some st'"
  with Delete show ?thesis by (auto simp: step_def inv_delete)
next
  case (Clear yes)
  assume "inv st" "step lib e st = Some st'"
  with Clear show ?thesis by (auto simp: step_def inv_clear)
next
  case Poll
  assume "inv st" "step lib e st = Some st'"
  with Poll show ?thesis by (auto simp: step_def inv_poll)
next
  case (WorkerStep i)
  assume "inv st" "step lib e st = Some st'"
  with WorkerStep show ?thesis by (auto simp: step_def intro: inv_worker_step)
next
  case (Respond i tr el)
  assume i: "inv st" and s: "step lib e st = Some st'"
  from s Respond have "worker_respond lib i tr el st = Some st'" by (simp add: step_def)
  then show ?thesis
    by (cases rule: worker_respond_cases) (simp add: inv_respond[OF i])
qed

lemma inv_run: "inv st \<Longrightarrow> run lib es st = Some st' \<Longrightarrow> inv st'"
proof (induction es arbitrary: st)
  case Nil
  then show ?case by simp
next
  case (Cons e es)
  then show ?case by (auto split: option.splits dest: inv_step)
qed

lemma reachable_inv: "reachable lib st \<Longrightarrow> inv st"
  unfolding reachable_def using inv_run[OF inv_init] by blast

lemma run_append:
  "run lib (es @ fs) st = (case run lib es st of None \<Rightarrow> None | Some st1 \<Rightarrow> run lib fs st1)"
  by (induction es arbitrary: st) (auto split: option.splits)


section \<open>What a step can change in the store\<close>

lemma queue_request_heap_old:
  "b < length (heap st) \<Longrightarrow> heap (queue_request m u h x st) ! b = heap st ! b"
  by (cases "strip u = []") (simp_all add: queue_request_empty queue_request_ok nth_append)

lemma queue_request_heap_length:
  "length (heap st) \<le> length (heap (queue_request m u h x st))"
  by (cases "strip u = []") (simp_all add: queue_request_empty queue_request_ok)

lemma delete_fields:
  "heap (snd (delete_selected_history st)) = heap st"
  "request_queue (snd (delete_selected_history st)) = request_queue st"
  "workers (snd (delete_selected_history st)) = workers st"
  by (auto simp: delete_selected_history_def split: list.splits sum.splits)

lemma clear_fields:
  "heap (clear_history yes st) = heap st"
  "request_queue (clear_history yes st) = request_queue st"
  "workers (clear_history yes st) = workers st"
  by (auto simp: clear_history_def)

lemma worker_step_heap: "worker_step i st = Some st' \<Longrightarrow> heap st' = heap st"
  by (erule worker_step_cases) simp_all

lemma step_heap_change:
  assumes s: "step lib e st = Some st'" and b: "b < length (heap st)"
    and ch: "heap st' ! b \<noteq> heap st ! b"
  shows "\<exists>i tr el. e = Respond i tr el \<and> inflight (workers st) i b"
proof (cases e)
  case (Send m u h x)
  with s b ch show ?thesis by (auto simp: step_def queue_request_heap_old)
next
  case (Select i)
  with s ch show ?thesis by (auto simp: step_def split: if_splits)
next
  case Delete
  with s ch show ?thesis by (auto simp: step_def delete_fields)
next
  case (Clear yes)
  with s ch show ?thesis by (auto simp: step_def clear_fields)
next
  case Poll
  with s ch show ?thesis by (auto simp: step_def poll_queue_fields)
next
  case (WorkerStep i)
  with s ch show ?thesis by (auto simp: step_def dest: worker_step_heap)
next
  case (Respond i tr el)
  with s have "worker_respond lib i tr el st = Some st'" by (simp add: step_def)
  then obtain a where a: "i < length (workers st)" "workers st ! i = InFlight a"
    "st' = respond lib i a tr el st"
    by (rule worker_respond_cases)
  with ch have "b = a" using respond_fields(7)[of b a lib i tr el st] by auto
  with a Respond show ?thesis by (auto simp: inflight_def)
qed

lemma step_heap_length: "step lib e st = Some st' \<Longrightarrow> length (heap st) \<le> length (heap st')"
proof (cases e)
  case (Respond i tr el)
  assume "step lib e st = Some st'"
  with Respond have "worker_respond lib i tr el st = Some st'" by (simp add: step_def)
  then show ?thesis by (rule worker_respond_cases) (simp add: respond_fields)
qed (auto simp: step_def queue_request_heap_length delete_fields clear_fields
       poll_queue_fields split: if_splits dest: worker_step_heap)

lemma step_pending_old:
  assumes s: "step lib e st = Some st'" and p: "pending b st'" and b: "b < length (heap st)"
  shows "pending b st"
proof (cases e)
  case (Send m u h x)
  with s have st': "st' = queue_request (verb_name m) u h x st" by (simp add: step_def)
  show ?thesis
  proof (cases "strip u = []")
    case True
    with p st' show ?thesis by (simp add: queue_request_empty pending_def)
  next
    case False
    with p st' b show ?thesis by (simp add: queue_request_pending)
  qed
next
  case (Select i)
  with s p show ?thesis by (auto simp: step_def pending_def split: if_splits)
next
  case Delete
  with s p show ?thesis by (auto simp: step_def pending_def delete_fields)
next
  case (Clear yes)
  with s p show ?thesis by (auto simp: step_def pending_def clear_fields)
next
  case Poll
  with s p show ?thesis by (auto simp: step_def pending_def poll_queue_fields)
next
  case (WorkerStep i)
  with s have "worker_step i st = Some st'" by (simp add: step_def)
  then show ?thesis
  proof (cases rule: worker_step_cases)
    case test
    then have "\<And>k c. inflight (workers st') k c = inflight (workers st) k c"
      by (auto simp: inflight_update_idle)
    with p test show ?thesis by (simp add: pending_def)
  next
    case (get a q)
    then have "\<And>k c. inflight (workers st') k c
                 = (if k = i then c = a else inflight (workers st) k c)"
      by (auto simp: inflight_update)
    with p get show ?thesis by (auto simp: pending_def split: if_splits)
  qed
next
  case (Respond i tr el)
  with s have "worker_respond lib i tr el st = Some st'" by (simp add: step_def)
  then obtain a where a: "i < length (workers st)" "workers st ! i = InFlight a"
    "st' = respond lib i a tr el st"
    by (rule worker_respond_cases)
  obtain w where w: "workers st' = (workers st)[i := w]" "w = AtWhile \<or> w = Exited"
    using respond_fields(8) a(3) by blast
  have "\<And>k c. inflight (workers st') k c = (k \<noteq> i \<and> inflight (workers st) k c)"
    using a(1) w by (auto simp: inflight_update)
  with p a(3) show ?thesis by (auto simp: pending_def respond_fields)
qed

lemma run_settled:
  "run lib es st = Some st' \<Longrightarrow> b < length (heap st) \<Longrightarrow> \<not> pending b st \<Longrightarrow>
   heap st' ! b = heap st ! b"
proof (induction es arbitrary: st)
  case Nil
  then show ?case by simp
next
  case (Cons e es)
  from Cons.prems(1) obtain st1 where s: "step lib e st = Some st1"
    and r: "run lib es st1 = Some st'"
    by (auto split: option.splits)
  have same: "heap st1 ! b = heap st ! b"
    using step_heap_change[OF s Cons.prems(2)] Cons.prems(3) by (auto simp: pending_def)
  have b1: "b < length (heap st1)" using step_heap_length[OF s] Cons.prems(2) by simp
  have np: "\<not> pending b st1" using step_pending_old[OF s _ Cons.prems(2)] Cons.prems(3) by blast
  from Cons.IH[OF r b1 np] same show ?case by simp
qed

lemma respond_success_item:
  "a < length (heap st) \<Longrightarrow>
   heap (respond lib i a (Response code reason hs txt) el st) ! a =
     (heap st ! a)\<lparr>response_status := Some code, response_time := Some el,
                   response_preview := replace_newline (take 200 txt)\<rparr>"
  by (simp add: respond_def store_outcome_def Let_def split: option.splits)

lemma step_respond:
  "i < length (workers st) \<Longrightarrow> workers st ! i = InFlight a \<Longrightarrow>
   step lib (Respond i tr el) st = Some (respond lib i a tr el st)"
  by (simp add: step_def worker_respond_def)

section \<open>The example states are reached\<close>

lemma two_queued_run:
  "run lib [Send GET ''http://h/'' [] [], Send GET ''http://h/'' [] [], WorkerStep 0, WorkerStep 0]
     init = Some two_queued"
  by code_simp

lemma cleared_done_run:
  "run lib [Send GET ''http://h/'' [] [], WorkerStep 0, WorkerStep 0, Clear True,
            Respond 0 (Response 200 ''OK'' [] ''x'') 1] init = Some cleared_done"
  by code_simp

lemma twins_done_run:
  "run lib [Send GET ''http://h/'' [] [], Send GET ''http://h/'' [] [], WorkerStep 0,
            WorkerStep 0, Respond 0 (Response 200 ''OK'' [] ''x'') 1, WorkerStep 0,
            WorkerStep 0, Respond 0 (Response 200 ''Fine'' [] ''x'') 1] init = Some twins_done"
  by code_simp

lemma two_queued_reachable: "reachable lib two_queued"
  unfolding reachable_def using two_queued_run by blast

lemma cleared_done_reachable: "reachable lib cleared_done"
  unfolding reachable_def using cleared_done_run by blast

lemma twins_done_reachable: "reachable lib twins_done"
  unfolding reachable_def using twins_done_run by blast

lemma two_queued_fields:
  "workers two_queued = [InFlight 0]" "heap two_queued = [unset_item, unset_item]"
  "request_queue two_queued = [1]" "response_queue two_queued = []"
  "history two_queued = [0, 1]" "curselection two_queued = []"
  by (simp_all add: two_queued_def)

lemma stranded_run:
  "run lib [Send GET ''http://a..b/'' [] [], Send GET ''http://h/'' [] [], WorkerStep 0,
            WorkerStep 0, Respond 0 OtherException el] init = Some stranded"
  by code_simp

lemma stranded_fields:
  "workers stranded = [Exited]" "request_queue stranded = [1]" "response_queue stranded = []"
  "heap stranded = [unset_item\<lparr>url := ''http://a..b/''\<rparr>, unset_item]"
  "history stranded = [0, 1]"
  by (simp_all add: stranded_def)

section \<open>The worker after a failure\<close>

lemma respond_failure_fields:
  "response_queue (respond lib i a (RequestException msg) el st) =
     response_queue st @ [(a, \<lparr>result_status = ''Request failed'', result_elapsed = Seconds el,
                               result_headers = [], result_body = msg\<rparr>)]"
  "workers (respond lib i a (RequestException msg) el st) = (workers st)[i := AtWhile]"
  "a < length (heap st) \<Longrightarrow>
   heap (respond lib i a (RequestException msg) el st) ! a =
     (heap st ! a)\<lparr>response_status := None, response_time := Some el, response_preview := msg\<rparr>"
  by (simp_all add: respond_def store_outcome_def Let_def)

lemma worker_continues:
  assumes "i < length ws" "workers st = ws[i := AtWhile]" "request_queue st = b # q"
  shows "\<exists>st2. run lib [WorkerStep i, WorkerStep i] st = Some st2 \<and>
           workers st2 ! i = InFlight b \<and> request_queue st2 = q"
  using assms by (simp add: step_def worker_step_def)

lemma worker_exits:
  assumes "i < length ws" "workers st = ws[i := AtWhile]" "request_queue st = []"
  shows "\<exists>st2. run lib [WorkerStep i] st = Some st2 \<and> workers st2 ! i = Exited"
  using assms by (simp add: step_def worker_step_def)

lemma respond_publishes:
  "publishes lib tr \<Longrightarrow>
   map fst (response_queue (respond lib i a tr el st)) = map fst (response_queue st) @ [a] \<and>
   workers (respond lib i a tr el st) = (workers st)[i := AtWhile]"
  by (auto simp: publishes_def respond_def store_outcome_def Let_def
           split: transport_result.splits option.splits)

lemma worker_loop_publishes_all:
  "i < length (workers st) \<Longrightarrow> (\<And>j. publishes lib (fst (net j))) \<Longrightarrow>
   map fst (response_queue (worker_loop lib net k i st))
     = map fst (response_queue st) @ request_queue st \<and>
   request_queue (worker_loop lib net k i st) = [] \<and>
   workers (worker_loop lib net k i st) ! i = Exited"
proof (induction lib net k i st rule: worker_loop.induct)
  case (1 lib net k i st)
  show ?case
  proof (cases "request_queue st")
    case Nil
    with "1.prems"(1) show ?thesis by (simp add: worker_loop.simps[of lib net k i st])
  next
    case (Cons a q)
    let ?s0 = "st\<lparr>request_queue := q, workers := (workers st)[i := InFlight a]\<rparr>"
    let ?s1 = "respond lib i a (fst (net k)) (snd (net k)) ?s0"
    have p: "map fst (response_queue ?s1) = map fst (response_queue st) @ [a]"
      and w: "workers ?s1 = (workers st)[i := AtWhile]"
      using respond_publishes[OF "1.prems"(2), where j1 = k and i = i and a = a
          and el = "snd (net k)" and st = ?s0] "1.prems"(1)
      by simp_all
    have alive: "workers ?s1 ! i \<noteq> Exited" using w "1.prems"(1) by simp
    have len: "i < length (workers ?s1)" using w "1.prems"(1) by simp
    have q1: "request_queue ?s1 = q" by (simp add: respond_fields)
    have ih: "map fst (response_queue (worker_loop lib net (Suc k) i ?s1))
                = map fst (response_queue ?s1) @ request_queue ?s1 \<and>
              request_queue (worker_loop lib net (Suc k) i ?s1) = [] \<and>
              workers (worker_loop lib net (Suc k) i ?s1) ! i = Exited"
      using "1.IH"[OF Cons refl alive len "1.prems"(2)] .
    have unf: "worker_loop lib net k i st = worker_loop lib net (Suc k) i ?s1"
      using Cons alive by (simp add: worker_loop.simps[of lib net k i st] Let_def)
    show ?thesis using ih by (simp add: unf p q1 Cons)
  qed
qed

lemma worker_loop_is_run:
  "i < length (workers st) \<Longrightarrow> workers st ! i = AtWhile \<Longrightarrow>
   \<exists>es. run lib es st = Some (worker_loop lib net k i st)"
proof (induction lib net k i st rule: worker_loop.induct)
  case (1 lib net k i st)
  show ?case
  proof (cases "request_queue st")
    case Nil
    with "1.prems" have "run lib [WorkerStep i] st = Some (worker_loop lib net k i st)"
      by (simp add: worker_loop.simps[of lib net k i st] step_def worker_step_def)
    then show ?thesis by blast
  next
    case (Cons a q)
    let ?s0 = "st\<lparr>request_queue := q, workers := (workers st)[i := InFlight a]\<rparr>"
    let ?s1 = "respond lib i a (fst (net k)) (snd (net k)) ?s0"
    have r3: "run lib [WorkerStep i, WorkerStep i, Respond i (fst (net k)) (snd (net k))] st
                = Some ?s1"
      using Cons "1.prems" by (simp add: step_def worker_step_def worker_respond_def)
    obtain w where w: "workers ?s1 = (workers ?s0)[i := w]" "w = AtWhile \<or> w = Exited"
      using respond_fields(8) by blast
    have len: "i < length (workers ?s1)" using w "1.prems"(1) by simp
    show ?thesis
    proof (cases "workers ?s1 ! i = Exited")
      case True
      with Cons have "worker_loop lib net k i st = ?s1"
        by (simp add: worker_loop.simps[of lib net k i st] Let_def)
      with r3 show ?thesis by metis
    next
      case False
      then have at: "workers ?s1 ! i = AtWhile" using w "1.prems"(1) by auto
      from "1.IH"[OF Cons refl False len at]
      obtain es where es: "run lib es ?s1 = Some (worker_loop lib net (Suc k) i ?s1)" by blast
      have unf: "worker_loop lib net k i st = worker_loop lib net (Suc k) i ?s1"
        using Cons False by (simp add: worker_loop.simps[of lib net k i st] Let_def)
      have "run lib ([WorkerStep i, WorkerStep i, Respond i (fst (net k)) (snd (net k))] @ es) st
              = Some (worker_loop lib net k i st)"
        unfolding run_append r3 using es unf by simp
      then show ?thesis by blast
    qed
  qed
qed

text \<open>
  On a \<open>RequestException\<close> the thread publishes the outcome \<open>Request failed\<close> with the
  exception's text, stores the elapsed time on the record, whose status stays \<open>None\<close>,
  and is back at the test of its loop. Run as a whole, the loop publishes one pair for every
  queued record, in the order of the queue, when every exchange ends in this way or with a
  response that can be formatted.
\<close>

lemma worker_after_request_exception:
  "(i < length (workers st) \<and> workers st ! i = InFlight a \<and> a < length (heap st) \<longrightarrow>
     step lib (Respond i (RequestException msg) el) st =
       Some (respond lib i a (RequestException msg) el st) \<and>
     response_queue (respond lib i a (RequestException msg) el st) =
       response_queue st @ [(a, \<lparr>result_status = ''Request failed'', result_elapsed = Seconds el,
                                 result_headers = [], result_body = msg\<rparr>)] \<and>
     heap (respond lib i a (RequestException msg) el st) ! a =
       (heap st ! a)\<lparr>response_status := None, response_time := Some el,
                     response_preview := msg\<rparr> \<and>
     (reachable lib st \<longrightarrow> response_status (heap st ! a) = None) \<and>
     workers (respond lib i a (RequestException msg) el st) ! i = AtWhile \<and>
     request_queue (respond lib i a (RequestException msg) el st) = request_queue st \<and>
     (\<forall>b q. request_queue st = b # q \<longrightarrow>
        (\<exists>st2. run lib [WorkerStep i, WorkerStep i]
                 (respond lib i a (RequestException msg) el st) = Some st2 \<and>
               workers st2 ! i = InFlight b \<and> request_queue st2 = q)) \<and>
     (request_queue st = [] \<longrightarrow>
        (\<exists>st2. run lib [WorkerStep i] (respond lib i a (RequestException msg) el st) = Some st2 \<and>
               workers st2 ! i = Exited))) \<and>
   (i < length (workers st) \<and> (\<forall>j. publishes lib (fst (net j))) \<longrightarrow>
      map fst (response_queue (worker_loop lib net k i st))
        = map fst (response_queue st) @ request_queue st \<and>
      request_queue (worker_loop lib net k i st) = [] \<and>
      workers (worker_loop lib net k i st) ! i = Exited) \<and>
   (i < length (workers st) \<and> workers st ! i = AtWhile \<longrightarrow>
      (\<exists>es. run lib es st = Some (worker_loop lib net k i st)))"
proof -
  have main: "i < length (workers st) \<and> workers st ! i = InFlight a \<and> a < length (heap st) \<longrightarrow>
     step lib (Respond i (RequestException msg) el) st =
       Some (respond lib i a (RequestException msg) el st) \<and>
     response_queue (respond lib i a (RequestException msg) el st) =
       response_queue st @ [(a, \<lparr>result_status = ''Request failed'', result_elapsed = Seconds el,
                                 result_headers = [], result_body = msg\<rparr>)] \<and>
     heap (respond lib i a (RequestException msg) el st) ! a =
       (heap st ! a)\<lparr>response_status := None, response_time := Some el,
                     response_preview := msg\<rparr> \<and>
     (reachable lib st \<longrightarrow> response_status (heap st ! a) = None) \<and>
     workers (respond lib i a (RequestException msg) el st) ! i = AtWhile \<and>
     request_queue (respond lib i a (RequestException msg) el st) = request_queue st \<and>
     (\<forall>b q. request_queue st = b # q \<longrightarrow>
        (\<exists>st2. run lib [WorkerStep i, WorkerStep i]
                 (respond lib i a (RequestException msg) el st) = Some st2 \<and>
               workers st2 ! i = InFlight b \<and> request_queue st2 = q)) \<and>
     (request_queue st = [] \<longrightarrow>
        (\<exists>st2. run lib [WorkerStep i] (respond lib i a (RequestException msg) el st) = Some st2 \<and>
               workers st2 ! i = Exited))"
  proof (intro impI)
    assume h: "i < length (workers st) \<and> workers st ! i = InFlight a \<and> a < length (heap st)"
    let ?st = "respond lib i a (RequestException msg) el st"
    have w: "workers ?st = (workers st)[i := AtWhile]" by (rule respond_failure_fields)
    have q: "request_queue ?st = request_queue st" by (rule respond_fields)
    have unset: "response_status (heap st ! a) = None" if r: "reachable lib st"
    proof -
      have "pending a st" using h by (auto simp: pending_def inflight_def)
      moreover have "pending_fresh st" using reachable_inv[OF r] by (simp add: inv_def)
      ultimately show ?thesis by (simp add: pending_fresh_def fresh_def)
    qed
    have cont: "\<exists>st2. run lib [WorkerStep i, WorkerStep i] ?st = Some st2 \<and>
                 workers st2 ! i = InFlight b \<and> request_queue st2 = q'"
      if "request_queue st = b # q'" for b q'
      using worker_continues[of i "workers st" ?st b q' lib] h w q that by simp
    have ex: "\<exists>st2. run lib [WorkerStep i] ?st = Some st2 \<and> workers st2 ! i = Exited"
      if "request_queue st = []"
      using worker_exits[of i "workers st" ?st lib] h w q that by simp
    show "step lib (Respond i (RequestException msg) el) st = Some ?st \<and>
       response_queue ?st =
         response_queue st @ [(a, \<lparr>result_status = ''Request failed'', result_elapsed = Seconds el,
                                   result_headers = [], result_body = msg\<rparr>)] \<and>
       heap ?st ! a =
         (heap st ! a)\<lparr>response_status := None, response_time := Some el,
                       response_preview := msg\<rparr> \<and>
       (reachable lib st \<longrightarrow> response_status (heap st ! a) = None) \<and>
       workers ?st ! i = AtWhile \<and>
       request_queue ?st = request_queue st \<and>
       (\<forall>b q. request_queue st = b # q \<longrightarrow>
          (\<exists>st2. run lib [WorkerStep i, WorkerStep i] ?st = Some st2 \<and>
                 workers st2 ! i = InFlight b \<and> request_queue st2 = q)) \<and>
       (request_queue st = [] \<longrightarrow>
          (\<exists>st2. run lib [WorkerStep i] ?st = Some st2 \<and> workers st2 ! i = Exited))"
      using h unset cont ex
      by (simp add: step_respond respond_failure_fields q)
  qed
  have loop: "i < length (workers st) \<and> (\<forall>j. publishes lib (fst (net j))) \<longrightarrow>
      map fst (response_queue (worker_loop lib net k i st))
        = map fst (response_queue st) @ request_queue st \<and>
      request_queue (worker_loop lib net k i st) = [] \<and>
      workers (worker_loop lib net k i st) ! i = Exited"
    using worker_loop_publishes_all[of i st lib net k] by blast
  have steps: "i < length (workers st) \<and> workers st ! i = AtWhile \<longrightarrow>
      (\<exists>es. run lib es st = Some (worker_loop lib net k i st))"
    using worker_loop_is_run[of i st lib net k] by blast
  from main loop steps show ?thesis by (rule conjI[OF _ conjI])
qed

text \<open>
  With the only thread ended and a record waiting, no step starts a thread or takes a
  record: a submission finds the queue non-empty, and the ended thread cannot move.
\<close>

lemma delete_response_queue:
  "response_queue (snd (delete_selected_history st)) = response_queue st"
  by (auto simp: delete_selected_history_def split: list.splits sum.splits)

lemma clear_response_queue:
  "response_queue (clear_history yes st) = response_queue st"
  by (auto simp: clear_history_def)

lemma no_worker_step:
  assumes w: "workers st = [Exited]" and q: "request_queue st = a # q"
    and r: "response_queue st = []" and f: "list_all fresh (heap st)"
    and s: "step lib e st = Some st'"
  shows "workers st' = [Exited] \<and> (\<exists>q'. request_queue st' = a # q') \<and>
         response_queue st' = [] \<and> list_all fresh (heap st')"
proof (cases e)
  case (Send m u h b)
  show ?thesis
  proof (cases "strip u = []")
    case True
    with Send s w q r f show ?thesis by (auto simp: step_def queue_request_empty)
  next
    case False
    have "fresh \<lparr>http_method = upper (verb_name m), url = strip u, headers = fst (parse_headers h),
                 body = strip b, response_status = None, response_time = None,
                 response_preview = []\<rparr>"
      by (simp add: fresh_def)
    with Send s w q r f queue_request_ok[OF False, of "verb_name m" h b st]
    show ?thesis by (auto simp: step_def)
  qed
next
  case (Select i)
  with s w q r f show ?thesis by (auto simp: step_def split: if_splits)
next
  case Delete
  with s w q r f show ?thesis by (auto simp: step_def delete_fields delete_response_queue)
next
  case (Clear yes)
  with s w q r f show ?thesis by (auto simp: step_def clear_fields clear_response_queue)
next
  case Poll
  with s w q r f show ?thesis by (auto simp: step_def poll_queue.simps[of st])
next
  case (WorkerStep i)
  with s w show ?thesis by (cases i) (auto simp: step_def worker_step_def split: if_splits)
next
  case (Respond i tr el)
  with s w show ?thesis by (cases i) (auto simp: step_def worker_respond_def split: if_splits)
qed

lemma no_worker_run:
  "workers st = [Exited] \<Longrightarrow> request_queue st = a # q \<Longrightarrow> response_queue st = [] \<Longrightarrow>
   list_all fresh (heap st) \<Longrightarrow> run lib es st = Some st' \<Longrightarrow>
   workers st' = [Exited] \<and> (\<exists>q'. request_queue st' = a # q') \<and>
   response_queue st' = [] \<and> list_all fresh (heap st')"
proof (induction es arbitrary: st q)
  case Nil
  then show ?case by simp
next
  case (Cons e es)
  from Cons.prems(5) obtain st1 where s1: "step lib e st = Some st1" and r1: "run lib es st1 = Some st'"
    by (auto split: option.splits)
  from no_worker_step[OF Cons.prems(1-4) s1]
  obtain q1 where "workers st1 = [Exited]" "request_queue st1 = a # q1" "response_queue st1 = []"
     "list_all fresh (heap st1)" by blast
  from Cons.IH[OF this r1] show ?case .
qed

section \<open>Starting threads and polling\<close>

lemma queue_request_starts_worker:
  "(length (workers (queue_request m u h b st)) = Suc (length (workers st)))
     = (strip u \<noteq> [] \<and> request_queue st = [])"
  by (cases "strip u = []") (simp_all add: queue_request_empty queue_request_ok)

lemma poll_queue_empty_history:
  "response_queue st = p # q \<Longrightarrow> history st = [] \<Longrightarrow>
   poll_queue st = (Some IndexError, st\<lparr>response_queue := q\<rparr>)"
  by (simp add: poll_queue.simps[of st] poll_body_def)

section \<open>Equality of records and the panel\<close>

lemma dict_eq_refl: "dict_eq d d"
  by (simp add: dict_eq_def list_all_iff)

lemma item_eq_refl: "item_eq x x"
  by (simp add: item_eq_def dict_eq_refl)

lemma poll_body_panel:
  "history st \<noteq> [] \<Longrightarrow>
   \<exists>st'. poll_body (a, r) st = Inr st' \<and> heap st' = heap st \<and>
         panel st' = (if item_eq (heap st ! a) (heap st ! last (history st))
                      then result_panel r else panel st)"
  by (simp add: poll_body_def panel_def result_panel_def display_response_def)

section \<open>Deleting from the history\<close>









section \<open>Formatting the body\<close>













section \<open>The claims\<close>

text \<open>
  Claim C3. A submission whose URL is empty (or blank) shows the Missing URL error and
  returns: the history, the request queue, the store and the threads are as before.
  Every other submission appends exactly one address, that of the new record, to the
  history and to the request queue.
\<close>

theorem C3_submit:
  "(strip u = [] \<longrightarrow>
      dialogs (queue_request m u h b st) =
        dialogs st @ [ShowError ''Missing URL'' ''Please provide a URL before sending.''] \<and>
      history (queue_request m u h b st) = history st \<and>
      request_queue (queue_request m u h b st) = request_queue st \<and>
      heap (queue_request m u h b st) = heap st \<and>
      workers (queue_request m u h b st) = workers st) \<and>
   (strip u \<noteq> [] \<longrightarrow>
      length (history (queue_request m u h b st)) = length (history st) + 1 \<and>
      history (queue_request m u h b st) = history st @ [length (heap st)] \<and>
      request_queue (queue_request m u h b st) = request_queue st @ [length (heap st)] \<and>
      length (heap (queue_request m u h b st)) = length (heap st) + 1)"
  by (simp add: queue_request_empty queue_request_ok)

theorem C3_submit_witness:
  "history (queue_request ''GET'' [] ''A: 1'' ''x'' init) = history init \<and>
   request_queue (queue_request ''GET'' [] ''A: 1'' ''x'' init) = request_queue init \<and>
   dialogs (queue_request ''GET'' [] ''A: 1'' ''x'' init) =
     dialogs init @ [ShowError ''Missing URL'' ''Please provide a URL before sending.''] \<and>
   length (history (queue_request ''GET'' ''http://h/'' ''A: 1'' ''x'' init)) =
     length (history init) + 1 \<and>
   request_queue (queue_request ''GET'' ''http://h/'' ''A: 1'' ''x'' init) =
     request_queue init @ [length (heap init)]"
proof -
  have e: "strip [] = []" by (rule strip_Nil)
  have n: "strip ''http://h/'' \<noteq> []" by (simp add: strip_def isspace_def whitespace_def)
  show ?thesis
    using C3_submit[of "[]" "''GET''" "''A: 1''" "''x''" init]
          C3_submit[of "''http://h/''" "''GET''" "''A: 1''" "''x''" init] e n
    by simp
qed

text \<open>
  Claim C4. A line is split at its first colon into a stripped key and a stripped value; the
  parsed headers are the pairs of the lines that contain a colon, a later line overriding
  an earlier one with the same key; every other non-blank line gives one warning box, titled
  Invalid header and saying that the line is missing a colon and will be ignored, and is
  skipped. The text \<open>X-Test: 1\nBad-Line\nY: 2\<close> gives the headers X-Test: 1 and Y: 2
  and one warning for Bad-Line, and a submission with that text and a URL still appends
  and enqueues its record.
\<close>

theorem C4_parse_headers:
  "(\<forall>x y. CHR '':'' \<notin> set x \<longrightarrow> header_of_line (x @ CHR '':'' # y) = (strip x, strip y)) \<and>
   map_of (fst (parse_headers raw)) =
     map_of (rev (map header_of_line
                    (filter (\<lambda>l. CHR '':'' \<in> set l) (splitlines (strip raw))))) \<and>
   snd (parse_headers raw) =
     map (\<lambda>l. ShowWarning ''Invalid header''
                 (''Header '' @ [CHR 0x27] @ l @ [CHR 0x27]
                    @ '' is missing a colon. It will be ignored.''))
       (filter (\<lambda>l. strip l \<noteq> [] \<and> CHR '':'' \<notin> set l) (splitlines (strip raw))) \<and>
   parse_headers ''X-Test: 1\<newline>Bad-Line\<newline>Y: 2'' =
     ([(''X-Test'', ''1''), (''Y'', ''2'')],
      [ShowWarning ''Invalid header''
         (''Header '' @ [CHR 0x27] @ ''Bad-Line'' @ [CHR 0x27]
            @ '' is missing a colon. It will be ignored.'')]) \<and>
   (strip u \<noteq> [] \<longrightarrow>
      headers (heap (queue_request m u ''X-Test: 1\<newline>Bad-Line\<newline>Y: 2'' b st) ! length (heap st)) =
        [(''X-Test'', ''1''), (''Y'', ''2'')] \<and>
      dialogs (queue_request m u ''X-Test: 1\<newline>Bad-Line\<newline>Y: 2'' b st) =
        dialogs st @ [ShowWarning ''Invalid header''
                        (''Header '' @ [CHR 0x27] @ ''Bad-Line'' @ [CHR 0x27]
                           @ '' is missing a colon. It will be ignored.'')] \<and>
      history (queue_request m u ''X-Test: 1\<newline>Bad-Line\<newline>Y: 2'' b st) =
        history st @ [length (heap st)] \<and>
      request_queue (queue_request m u ''X-Test: 1\<newline>Bad-Line\<newline>Y: 2'' b st) =
        request_queue st @ [length (heap st)])"
proof -
  have a: "\<forall>x y. CHR '':'' \<notin> set x \<longrightarrow> header_of_line (x @ CHR '':'' # y) = (strip x, strip y)"
    by (simp add: header_of_line_first)
  have w: "missing_colon_warning =
      (\<lambda>l. ShowWarning ''Invalid header''
              (''Header '' @ [CHR 0x27] @ l @ [CHR 0x27]
                 @ '' is missing a colon. It will be ignored.''))"
    by (rule ext) (simp add: missing_colon_warning_def)
  have c: "snd (parse_headers raw) =
     map (\<lambda>l. ShowWarning ''Invalid header''
                 (''Header '' @ [CHR 0x27] @ l @ [CHR 0x27]
                    @ '' is missing a colon. It will be ignored.''))
       (filter (\<lambda>l. strip l \<noteq> [] \<and> CHR '':'' \<notin> set l) (splitlines (strip raw)))"
    unfolding parse_headers_warnings w ..
  have d: "parse_headers ''X-Test: 1\<newline>Bad-Line\<newline>Y: 2'' =
     ([(''X-Test'', ''1''), (''Y'', ''2'')],
      [ShowWarning ''Invalid header''
         (''Header '' @ [CHR 0x27] @ ''Bad-Line'' @ [CHR 0x27]
            @ '' is missing a colon. It will be ignored.'')])"
    unfolding parse_headers_example w ..
  have e: "strip u \<noteq> [] \<longrightarrow>
      headers (heap (queue_request m u ''X-Test: 1\<newline>Bad-Line\<newline>Y: 2'' b st) ! length (heap st)) =
        [(''X-Test'', ''1''), (''Y'', ''2'')] \<and>
      dialogs (queue_request m u ''X-Test: 1\<newline>Bad-Line\<newline>Y: 2'' b st) =
        dialogs st @ [ShowWarning ''Invalid header''
                        (''Header '' @ [CHR 0x27] @ ''Bad-Line'' @ [CHR 0x27]
                           @ '' is missing a colon. It will be ignored.'')] \<and>
      history (queue_request m u ''X-Test: 1\<newline>Bad-Line\<newline>Y: 2'' b st) =
        history st @ [length (heap st)] \<and>
      request_queue (queue_request m u ''X-Test: 1\<newline>Bad-Line\<newline>Y: 2'' b st) =
        request_queue st @ [length (heap st)]"
    by (simp add: queue_request_ok parse_headers_example missing_colon_warning_def)
  show ?thesis
    using a c d e parse_headers_map[of raw]
    by blast
qed

theorem C4_parse_headers_witness:
  "header_of_line ''Accept : text/html:x'' = (''Accept'', ''text/html:x'') \<and>
   map_of (fst (parse_headers ''A: 1\<newline>oops\<newline>A:2'')) ''A'' = Some ''2'' \<and>
   snd (parse_headers ''A: 1\<newline>oops\<newline>A:2'') =
     [ShowWarning ''Invalid header''
        (''Header '' @ [CHR 0x27] @ ''oops'' @ [CHR 0x27]
           @ '' is missing a colon. It will be ignored.'')] \<and>
   history (queue_request ''GET'' ''http://h/'' ''X-Test: 1\<newline>Bad-Line\<newline>Y: 2'' [] init) = [0] \<and>
   request_queue (queue_request ''GET'' ''http://h/'' ''X-Test: 1\<newline>Bad-Line\<newline>Y: 2'' [] init) = [0] \<and>
   dialogs (queue_request ''GET'' ''http://h/'' ''X-Test: 1\<newline>Bad-Line\<newline>Y: 2'' [] init) =
     [ShowWarning ''Invalid header''
        (''Header '' @ [CHR 0x27] @ ''Bad-Line'' @ [CHR 0x27]
           @ '' is missing a colon. It will be ignored.'')] \<and>
   headers (heap (queue_request ''GET'' ''http://h/'' ''X-Test: 1\<newline>Bad-Line\<newline>Y: 2'' [] init) ! 0) =
     [(''X-Test'', ''1''), (''Y'', ''2'')]"
proof -
  have n: "strip ''http://h/'' \<noteq> []" by (simp add: strip_def isspace_def whitespace_def)
  have c: "CHR '':'' \<notin> set ''Accept ''" by simp
  have s1: "strip ''Accept '' = ''Accept''" "strip '' text/html:x'' = ''text/html:x''"
    by (simp_all add: strip_def isspace_def whitespace_def)
  have l: "splitlines (strip ''A: 1\<newline>oops\<newline>A:2'') = [''A: 1'', ''oops'', ''A:2'']"
    by (simp add: strip_def isspace_def whitespace_def splitlines_def linebreaks_def)
  have h: "header_of_line ''A: 1'' = (''A'', ''1'')" "header_of_line ''A:2'' = (''A'', ''2'')"
    by (simp_all add: header_of_line_def split_colon_def strip_def isspace_def whitespace_def)
  have b: "strip ''A: 1'' \<noteq> []" "strip ''oops'' \<noteq> []" "strip ''A:2'' \<noteq> []"
    by (simp_all add: strip_def isspace_def whitespace_def)
  have i: "history init = []" "request_queue init = []" "heap init = []" "dialogs init = []"
    by (simp_all add: init_def)
  from C4_parse_headers[of "''A: 1\<newline>oops\<newline>A:2''" "''http://h/''" "''GET''" "[]" init]
  have "header_of_line (''Accept '' @ CHR '':'' # '' text/html:x'') = (strip ''Accept '', strip '' text/html:x'')"
    and "map_of (fst (parse_headers ''A: 1\<newline>oops\<newline>A:2'')) =
     map_of (rev (map header_of_line
                    (filter (\<lambda>l. CHR '':'' \<in> set l) (splitlines (strip ''A: 1\<newline>oops\<newline>A:2'')))))"
    and "snd (parse_headers ''A: 1\<newline>oops\<newline>A:2'') =
     map (\<lambda>l. ShowWarning ''Invalid header''
                 (''Header '' @ [CHR 0x27] @ l @ [CHR 0x27]
                    @ '' is missing a colon. It will be ignored.''))
       (filter (\<lambda>l. strip l \<noteq> [] \<and> CHR '':'' \<notin> set l) (splitlines (strip ''A: 1\<newline>oops\<newline>A:2'')))"
    and "history (queue_request ''GET'' ''http://h/'' ''X-Test: 1\<newline>Bad-Line\<newline>Y: 2'' [] init) = history init @ [length (heap init)]"
    and "request_queue (queue_request ''GET'' ''http://h/'' ''X-Test: 1\<newline>Bad-Line\<newline>Y: 2'' [] init) = request_queue init @ [length (heap init)]"
    and "dialogs (queue_request ''GET'' ''http://h/'' ''X-Test: 1\<newline>Bad-Line\<newline>Y: 2'' [] init) =
        dialogs init @ [ShowWarning ''Invalid header''
                        (''Header '' @ [CHR 0x27] @ ''Bad-Line'' @ [CHR 0x27]
                           @ '' is missing a colon. It will be ignored.'')]"
    and "headers (heap (queue_request ''GET'' ''http://h/'' ''X-Test: 1\<newline>Bad-Line\<newline>Y: 2'' [] init) ! length (heap init)) =
        [(''X-Test'', ''1''), (''Y'', ''2'')]"
    using n c by blast+
  then show ?thesis
    by (simp add: s1 l h b i)
qed

text \<open>
  Claim C10. A URL of whitespace only is handled exactly as the empty URL: the error box,
  and history, request queue and store as before. Otherwise the new record carries the
  stripped URL and the stripped body. Among the header lines, the last line with a given
  stripped key decides the value of that key.
\<close>

theorem C10_submit_normalizes:
  "((\<forall>c\<in>set u. isspace c) \<longrightarrow>
      queue_request m u h b st = queue_request m [] h b st \<and>
      history (queue_request m u h b st) = history st \<and>
      request_queue (queue_request m u h b st) = request_queue st \<and>
      heap (queue_request m u h b st) = heap st) \<and>
   (\<not> (\<forall>c\<in>set u. isspace c) \<longrightarrow>
      last (history (queue_request m u h b st)) = length (heap st) \<and>
      last (request_queue (queue_request m u h b st)) = length (heap st) \<and>
      url (heap (queue_request m u h b st) ! length (heap st)) = strip u \<and>
      body (heap (queue_request m u h b st) ! length (heap st)) = strip b) \<and>
   (\<forall>ls1 l ls2 x y.
      splitlines (strip raw) = ls1 @ l # ls2 \<and> l = x @ CHR '':'' # y \<and> CHR '':'' \<notin> set x \<and>
      (\<forall>l'\<in>set ls2. CHR '':'' \<in> set l' \<longrightarrow> fst (header_of_line l') \<noteq> strip x)
      \<longrightarrow> map_of (fst (parse_headers raw)) (strip x) = Some (strip y))"
proof -
  have a: "(\<forall>c\<in>set u. isspace c) \<longrightarrow>
      queue_request m u h b st = queue_request m [] h b st \<and>
      history (queue_request m u h b st) = history st \<and>
      request_queue (queue_request m u h b st) = request_queue st \<and>
      heap (queue_request m u h b st) = heap st"
    by (simp add: queue_request_empty strip_Nil strip_empty_iff[symmetric])
  have b: "\<not> (\<forall>c\<in>set u. isspace c) \<longrightarrow>
      last (history (queue_request m u h b st)) = length (heap st) \<and>
      last (request_queue (queue_request m u h b st)) = length (heap st) \<and>
      url (heap (queue_request m u h b st) ! length (heap st)) = strip u \<and>
      body (heap (queue_request m u h b st) ! length (heap st)) = strip b"
    by (simp add: queue_request_ok strip_empty_iff[symmetric])
  show ?thesis
    using a b parse_headers_last_wins[of raw] by blast
qed

theorem C10_submit_normalizes_witness:
  "queue_request ''GET'' ''  '' ''A: 1'' ''x'' init = queue_request ''GET'' [] ''A: 1'' ''x'' init \<and>
   history (queue_request ''GET'' ''  '' ''A: 1'' ''x'' init) = history init \<and>
   request_queue (queue_request ''GET'' ''  '' ''A: 1'' ''x'' init) = request_queue init \<and>
   url (heap (queue_request ''GET'' '' http://h/ '' ''A: 1'' '' x\<newline>'' init) ! length (heap init)) = ''http://h/'' \<and>
   body (heap (queue_request ''GET'' '' http://h/ '' ''A: 1'' '' x\<newline>'' init) ! length (heap init)) = ''x'' \<and>
   map_of (fst (parse_headers ''A: 1\<newline>A : 3\<newline>B: 2'')) ''A'' = Some ''3''"
proof -
  have sp: "\<forall>c\<in>set ''  ''. isspace c" by (simp add: isspace_def whitespace_def)
  have ns: "\<not> (\<forall>c\<in>set '' http://h/ ''. isspace c)" by (simp add: isspace_def whitespace_def)
  have s: "strip '' http://h/ '' = ''http://h/''" "strip '' x\<newline>'' = ''x''"
    "strip ''A '' = ''A''" "strip '' 3'' = ''3''"
    by (simp_all add: strip_def isspace_def whitespace_def)
  have l: "splitlines (strip ''A: 1\<newline>A : 3\<newline>B: 2'') = [''A: 1''] @ (''A '' @ CHR '':'' # '' 3'') # [''B: 2'']"
    by (simp add: strip_def isspace_def whitespace_def splitlines_def linebreaks_def)
  have c: "CHR '':'' \<notin> set ''A ''" by simp
  have k: "\<forall>l'\<in>set [''B: 2'']. CHR '':'' \<in> set l' \<longrightarrow> fst (header_of_line l') \<noteq> strip ''A ''"
    by (simp add: header_of_line_def split_colon_def strip_def isspace_def whitespace_def)
  have "map_of (fst (parse_headers ''A: 1\<newline>A : 3\<newline>B: 2'')) (strip ''A '') = Some (strip '' 3'')"
    using C10_submit_normalizes[of "''  ''" "''GET''" "''A: 1''" "''x''" init "''A: 1\<newline>A : 3\<newline>B: 2''"] l c k
    by blast
  moreover have "url (heap (queue_request ''GET'' '' http://h/ '' ''A: 1'' '' x\<newline>'' init) ! length (heap init)) = strip '' http://h/ ''
    \<and> body (heap (queue_request ''GET'' '' http://h/ '' ''A: 1'' '' x\<newline>'' init) ! length (heap init)) = strip '' x\<newline>''"
    using C10_submit_normalizes[of "'' http://h/ ''" "''GET''" "''A: 1''" "'' x\<newline>''" init "[]"] ns
    by blast
  moreover have "queue_request ''GET'' ''  '' ''A: 1'' ''x'' init = queue_request ''GET'' [] ''A: 1'' ''x'' init \<and>
   history (queue_request ''GET'' ''  '' ''A: 1'' ''x'' init) = history init \<and>
   request_queue (queue_request ''GET'' ''  '' ''A: 1'' ''x'' init) = request_queue init"
    using C10_submit_normalizes[of "''  ''" "''GET''" "''A: 1''" "''x''" init "[]"] sp
    by blast
  ultimately show ?thesis unfolding s by blast
qed

text \<open>
  Claim C7. When the transport call of a thread returns a response, the record in flight
  gets the status code, the elapsed time and, as preview, the first 200 characters of the
  response text with every newline replaced by a space. In an execution from the initial
  state the record had its outcome fields unset until then, and nothing changes the record
  afterwards; the only step that changes a record at all is the return of the transport
  call of the thread that has it in flight.
\<close>

theorem C7_outcome_stored_once:
  "(i < length (workers st) \<and> workers st ! i = InFlight a \<and> a < length (heap st) \<longrightarrow>
      step lib (Respond i (Response code reason hs raw) el) st =
        Some (respond lib i a (Response code reason hs raw) el st) \<and>
      heap (respond lib i a (Response code reason hs raw) el st) ! a =
        (heap st ! a)\<lparr>response_status := Some code, response_time := Some el,
                      response_preview := replace_newline (take 200 raw)\<rparr> \<and>
      (reachable lib st \<longrightarrow>
         fresh (heap st ! a) \<and>
         (\<forall>es st2. run lib es (respond lib i a (Response code reason hs raw) el st) = Some st2
            \<longrightarrow> heap st2 ! a = heap (respond lib i a (Response code reason hs raw) el st) ! a))) \<and>
   (step lib e s = Some s' \<and> b < length (heap s) \<and> heap s' ! b \<noteq> heap s ! b \<longrightarrow>
      (\<exists>j tr t. e = Respond j tr t \<and> j < length (workers s) \<and> workers s ! j = InFlight b))"
proof -
  let ?st = "respond lib i a (Response code reason hs raw) el st"
  have once: "fresh (heap st ! a) \<and> (\<forall>es st2. run lib es ?st = Some st2 \<longrightarrow> heap st2 ! a = heap ?st ! a)"
    if h: "i < length (workers st)" "workers st ! i = InFlight a" "a < length (heap st)"
      and r: "reachable lib st"
  proof -
    have i: "inv st" using r by (rule reachable_inv)
    then have ok: "queue_ok st" and pf: "pending_fresh st" by (simp_all add: inv_def)
    have "pending a st" using h by (auto simp: pending_def inflight_def)
    then have f: "fresh (heap st ! a)" using pf by (simp add: pending_fresh_def)
    have np: "\<not> pending a ?st" by (rule respond_not_pending(1)[OF ok h(1,2)])
    have la: "a < length (heap ?st)" using h(3) by (simp add: respond_fields)
    show ?thesis using f run_settled[OF _ la np] by blast
  qed
  have ch: "\<exists>j tr t. e = Respond j tr t \<and> j < length (workers s) \<and> workers s ! j = InFlight b"
    if "step lib e s = Some s'" "b < length (heap s)" "heap s' ! b \<noteq> heap s ! b"
    using step_heap_change[OF that] by (simp add: inflight_def)
  show ?thesis
    using once ch by (auto simp: step_respond respond_success_item)
qed

theorem C7_outcome_stored_once_witness:
  "step lib_raises (Respond 0 (Response 200 ''OK'' [] ''a\<newline>b'') 2) two_queued =
     Some (respond lib_raises 0 0 (Response 200 ''OK'' [] ''a\<newline>b'') 2 two_queued) \<and>
   heap (respond lib_raises 0 0 (Response 200 ''OK'' [] ''a\<newline>b'') 2 two_queued) ! 0 =
     unset_item\<lparr>response_status := Some 200, response_time := Some 2,
                 response_preview := ''a b''\<rparr> \<and>
   fresh unset_item \<and>
   heap (snd (poll_queue (respond lib_raises 0 0 (Response 200 ''OK'' [] ''a\<newline>b'') 2 two_queued))) ! 0 =
     heap (respond lib_raises 0 0 (Response 200 ''OK'' [] ''a\<newline>b'') 2 two_queued) ! 0 \<and>
   (\<exists>j tr t. Respond 0 (Response 200 ''OK'' [] ''a\<newline>b'') 2 = Respond j tr t \<and>
      j < length (workers two_queued) \<and> workers two_queued ! j = InFlight 0)"
proof -
  let ?lib = "lib_raises"
  let ?e = "Respond 0 (Response 200 ''OK'' [] ''a\<newline>b'') 2"
  let ?st = "respond ?lib 0 0 (Response 200 ''OK'' [] ''a\<newline>b'') 2 two_queued"
  have h: "0 < length (workers two_queued) \<and> workers two_queued ! 0 = InFlight 0 \<and>
           0 < length (heap two_queued)"
    by (simp add: two_queued_fields)
  have r: "reachable ?lib two_queued" by (rule two_queued_reachable)
  have p: "run ?lib [Poll] ?st = Some (snd (poll_queue ?st))" by (simp add: step_def)
  have v: "replace_newline ''a\<newline>b'' = ''a b''" by (simp add: replace_newline_def)
  note t = C7_outcome_stored_once[where i = "0" and st = "two_queued" and a = "0"
      and lib = "?lib" and code = "200" and reason = "''OK''" and hs = "[]"
      and raw = "''a\<newline>b''" and el = "2" and e = "?e" and s = "two_queued"
      and s' = "?st" and b = "0"]
  from t h r have s: "step ?lib ?e two_queued = Some ?st"
    and i: "heap ?st ! 0 = (heap two_queued ! 0)\<lparr>response_status := Some 200,
              response_time := Some 2, response_preview := replace_newline (take 200 ''a\<newline>b'')\<rparr>"
    and f: "fresh (heap two_queued ! 0)"
    and n: "\<forall>es st2. run ?lib es ?st = Some st2 \<longrightarrow> heap st2 ! 0 = heap ?st ! 0"
    by blast+
  from i have ch: "heap ?st ! 0 \<noteq> heap two_queued ! 0"
    by (simp add: two_queued_fields unset_item_def)
  from t s ch h have c: "\<exists>j tr t. ?e = Respond j tr t \<and>
      j < length (workers two_queued) \<and> workers two_queued ! j = InFlight 0"
    by blast
  from n p have k: "heap (snd (poll_queue ?st)) ! 0 = heap ?st ! 0" by blast
  from i f have "heap ?st ! 0 = unset_item\<lparr>response_status := Some 200, response_time := Some 2,
                 response_preview := ''a b''\<rparr>" "fresh unset_item"
    by (simp_all add: two_queued_fields v)
  with s k c show ?thesis by blast
qed

text \<open>
  Claim C5. The worker catches the exceptions of class \<open>RequestException\<close> only. Two
  records are submitted, the first with the URL \<open>http://a..b/\<close>, and the transport call
  of the first ends with an exception of another class: the thread ends, nothing is put on
  the response queue, the first record has no elapsed time and no preview, and the second
  record stays in the request queue. The ended thread cannot move, and as the request queue
  is not empty no later submission starts a thread: in every continuation the only thread
  is ended, the second record is still at the head of the request queue, the response
  queue is empty and every record is as it was created.
\<close>

theorem C5_other_exception_ends_worker:
  "run lib [Send GET ''http://a..b/'' [] [], Send GET ''http://h/'' [] [], WorkerStep 0,
            WorkerStep 0, Respond 0 OtherException el] init = Some stranded \<and>
   workers stranded = [Exited] \<and> request_queue stranded = [1] \<and>
   response_queue stranded = [] \<and>
   response_time (heap stranded ! 0) = None \<and> response_preview (heap stranded ! 0) = [] \<and>
   step lib (WorkerStep 0) stranded = None \<and>
   (\<forall>es. run lib es stranded = None \<or>
      (\<exists>st q. run lib es stranded = Some st \<and> workers st = [Exited] \<and>
              request_queue st = 1 # q \<and> response_queue st = [] \<and>
              list_all fresh (heap st)))"
proof -
  have f: "list_all fresh (heap stranded)"
    by (simp add: stranded_fields fresh_def unset_item_def)
  have a: "\<forall>es. run lib es stranded = None \<or>
      (\<exists>st q. run lib es stranded = Some st \<and> workers st = [Exited] \<and>
              request_queue st = 1 # q \<and> response_queue st = [] \<and>
              list_all fresh (heap st))"
  proof
    fix es
    show "run lib es stranded = None \<or>
      (\<exists>st q. run lib es stranded = Some st \<and> workers st = [Exited] \<and>
              request_queue st = 1 # q \<and> response_queue st = [] \<and>
              list_all fresh (heap st))"
    proof (cases "run lib es stranded")
      case None
      then show ?thesis by simp
    next
      case (Some st)
      from no_worker_run[OF stranded_fields(1) stranded_fields(2) stranded_fields(3) f Some]
      show ?thesis using Some by blast
    qed
  qed
  have s: "step lib (WorkerStep 0) stranded = None"
    by (simp add: step_def worker_step_def stranded_fields)
  have h: "response_time (heap stranded ! 0) = None" "response_preview (heap stranded ! 0) = []"
    by (simp_all add: stranded_fields unset_item_def)
  from stranded_run[of lib el] stranded_fields(1-3) h s a show ?thesis by blast
qed

text \<open>
  Claim C1. A submission starts a thread exactly when its URL is not blank and the request
  queue was empty before it. A record in flight has left the queue, so the test does not
  keep the threads to one: after a first submission is taken in flight, a second submission
  finds the queue empty and starts a second thread, and the second record is in flight
  while the first still is.
\<close>

theorem C1_second_worker_while_in_flight:
  "(length (workers (queue_request m u h b st)) = Suc (length (workers st)))
     = (strip u \<noteq> [] \<and> request_queue st = []) \<and>
   map_option workers
     (run lib [Send GET ''http://a/'' [] [], WorkerStep 0, WorkerStep 0,
               Send GET ''http://b/'' [] []] init) = Some [InFlight 0, AtWhile] \<and>
   map_option workers
     (run lib [Send GET ''http://a/'' [] [], WorkerStep 0, WorkerStep 0,
               Send GET ''http://b/'' [] [], WorkerStep 1, WorkerStep 1] init)
     = Some [InFlight 0, InFlight 1] \<and>
   map_option (\<lambda>st. map url (heap st))
     (run lib [Send GET ''http://a/'' [] [], WorkerStep 0, WorkerStep 0,
               Send GET ''http://b/'' [] [], WorkerStep 1, WorkerStep 1] init)
     = Some [''http://a/'', ''http://b/'']"
proof -
  have a: "map_option workers
     (run lib [Send GET ''http://a/'' [] [], WorkerStep 0, WorkerStep 0,
               Send GET ''http://b/'' [] []] init) = Some [InFlight 0, AtWhile]"
    by code_simp
  have b: "map_option workers
     (run lib [Send GET ''http://a/'' [] [], WorkerStep 0, WorkerStep 0,
               Send GET ''http://b/'' [] [], WorkerStep 1, WorkerStep 1] init)
     = Some [InFlight 0, InFlight 1]"
    by code_simp
  have c: "map_option (\<lambda>st. map url (heap st))
     (run lib [Send GET ''http://a/'' [] [], WorkerStep 0, WorkerStep 0,
               Send GET ''http://b/'' [] [], WorkerStep 1, WorkerStep 1] init)
     = Some [''http://a/'', ''http://b/'']"
    by code_simp
  show ?thesis using queue_request_starts_worker a b c by blast
qed

text \<open>
  Claim C9. When the poll takes a pair from the response queue and the history is empty,
  the loop body raises IndexError: the poll ends with that error, the pair is gone from
  the queue and the pairs behind it stay there. Such a state is reached when the history
  is cleared while a request is in flight.
\<close>

theorem C9_poll_fails_on_empty_history:
  "response_queue st = p # q \<and> history st = [] \<longrightarrow>
     poll_body p (st\<lparr>response_queue := q\<rparr>) = Inl IndexError \<and>
     poll_queue st = (Some IndexError, st\<lparr>response_queue := q\<rparr>)"
  by (simp add: poll_queue_empty_history poll_body_def)

theorem C9_poll_fails_on_empty_history_witness:
  "reachable lib_raises cleared_done \<and>
   response_queue cleared_done =
     [(0, \<lparr>result_status = ''200 OK'', result_elapsed = Seconds 1,
            result_headers = ''{}'', result_body = ''x''\<rparr>)] \<and>
   history cleared_done = [] \<and>
   poll_queue cleared_done = (Some IndexError, cleared_done\<lparr>response_queue := []\<rparr>)"
proof -
  have q: "response_queue cleared_done =
     (0, \<lparr>result_status = ''200 OK'', result_elapsed = Seconds 1,
            result_headers = ''{}'', result_body = ''x''\<rparr>) # []"
    and h: "history cleared_done = []"
    by (simp_all add: cleared_done_def)
  from C9_poll_fails_on_empty_history[of cleared_done _ "[]"] q h
  have "poll_queue cleared_done = (Some IndexError, cleared_done\<lparr>response_queue := []\<rparr>)"
    by blast
  with q h cleared_done_reachable[of lib_raises] show ?thesis by simp
qed

text \<open>
  Claim C2, against identity. The poll compares the drained record with the last entry of
  the history by the equality of the dataclass, field by field, not by identity: with two
  equal submissions answered alike before the poll, the pair of the first record (address
  0) updates the panel, which showed Pending, although the last entry of the history is
  the second record (address 1).
\<close>

theorem C2_twin_counterexample:
  "run lib_raises
     [Send GET ''http://h/'' [] [], Send GET ''http://h/'' [] [], WorkerStep 0, WorkerStep 0,
      Respond 0 (Response 200 ''OK'' [] ''x'') 1, WorkerStep 0, WorkerStep 0,
      Respond 0 (Response 200 ''Fine'' [] ''x'') 1] init = Some twins_done \<and>
   fst (hd (response_queue twins_done)) = 0 \<and>
   last (history twins_done) = 1 \<and>
   panel twins_done = (''Pending...'', Dash, [], []) \<and>
   map_sum id panel
     (poll_body (hd (response_queue twins_done))
        (twins_done\<lparr>response_queue := tl (response_queue twins_done)\<rparr>))
     = Inr (''200 OK'', Seconds 1, ''{}'', ''x'')"
proof -
  have r: "run lib_raises
     [Send GET ''http://h/'' [] [], Send GET ''http://h/'' [] [], WorkerStep 0, WorkerStep 0,
      Respond 0 (Response 200 ''OK'' [] ''x'') 1, WorkerStep 0, WorkerStep 0,
      Respond 0 (Response 200 ''Fine'' [] ''x'') 1] init = Some twins_done"
    by (rule twins_done_run)
  have e: "item_eq done_item done_item" by (rule item_eq_refl)
  have a: "fst (hd (response_queue twins_done)) = 0" "last (history twins_done) = 1"
    "panel twins_done = (''Pending...'', Dash, [], [])"
    by (simp_all add: twins_done_def panel_def)
  have b: "map_sum id panel
     (poll_body (hd (response_queue twins_done))
        (twins_done\<lparr>response_queue := tl (response_queue twins_done)\<rparr>))
     = Inr (''200 OK'', Seconds 1, ''{}'', ''x'')"
    using e by (simp add: twins_done_def poll_body_def panel_def display_response_def)
  show ?thesis using r a b by blast
qed

text \<open>
  Claim C2, with the equality the code uses. For a pair drained while the history is not
  empty, the panel shows the pair's outcome if the record equals the last entry of the
  history field by field, and is unchanged otherwise; the record that is the last entry
  always equals it; and the poll leaves the store as it is, the outcome fields having been
  stored by the worker.
\<close>

theorem C2_panel_update:
  "history st \<noteq> [] \<longrightarrow>
     (\<exists>st'. poll_body (a, r) st = Inr st' \<and> heap st' = heap st \<and>
        panel st' = (if item_eq (heap st ! a) (heap st ! last (history st))
                     then result_panel r else panel st)) \<and>
     (a = last (history st) \<longrightarrow> item_eq (heap st ! a) (heap st ! last (history st)))"
  using poll_body_panel[of st a r] item_eq_refl by auto

theorem C2_panel_update_witness:
  "(\<exists>st'. poll_body (1, \<lparr>result_status = ''200 Fine'', result_elapsed = Seconds 1,
                          result_headers = ''{}'', result_body = ''x''\<rparr>) twins_done = Inr st' \<and>
      heap st' = heap twins_done \<and>
      panel st' = (''200 Fine'', Seconds 1, ''{}'', ''x'')) \<and>
   (\<exists>st'. poll_body (0, \<lparr>result_status = ''200 OK'', result_elapsed = Seconds 1,
                          result_headers = ''{}'', result_body = ''x''\<rparr>)
             (two_queued\<lparr>heap := [done_item, unset_item]\<rparr>) = Inr st' \<and>
      heap st' = [done_item, unset_item] \<and>
      panel st' = (''Pending...'', Dash, [], []))"
proof -
  let ?r = "\<lparr>result_status = ''200 Fine'', result_elapsed = Seconds 1,
             result_headers = ''{}'', result_body = ''x''\<rparr>"
  let ?l = "\<lparr>result_status = ''200 OK'', result_elapsed = Seconds 1,
             result_headers = ''{}'', result_body = ''x''\<rparr>"
  let ?s = "two_queued\<lparr>heap := [done_item, unset_item]\<rparr>"
  have h: "history twins_done \<noteq> []" "1 = last (history twins_done)"
    by (simp_all add: twins_done_def)
  from C2_panel_update[of twins_done 1 ?r] h
  have e: "item_eq (heap twins_done ! 1) (heap twins_done ! last (history twins_done))"
    and p: "\<exists>st'. poll_body (1, ?r) twins_done = Inr st' \<and> heap st' = heap twins_done \<and>
        panel st' = (if item_eq (heap twins_done ! 1) (heap twins_done ! last (history twins_done))
                     then result_panel ?r else panel twins_done)"
    by blast+
  from p e have a: "\<exists>st'. poll_body (1, ?r) twins_done = Inr st' \<and> heap st' = heap twins_done \<and>
        panel st' = (''200 Fine'', Seconds 1, ''{}'', ''x'')"
    by (simp add: result_panel_def)
  have h2: "history ?s \<noteq> []" by (simp add: two_queued_def)
  have ne: "\<not> item_eq (heap ?s ! 0) (heap ?s ! last (history ?s))"
    by (simp add: two_queued_def item_eq_def done_item_def unset_item_def)
  have pn: "panel ?s = (''Pending...'', Dash, [], [])" "heap ?s = [done_item, unset_item]"
    by (simp_all add: two_queued_def panel_def)
  from C2_panel_update[of ?s 0 ?l] h2
  have p2: "\<exists>st'. poll_body (0, ?l) ?s = Inr st' \<and> heap st' = heap ?s \<and>
        panel st' = (if item_eq (heap ?s ! 0) (heap ?s ! last (history ?s))
                     then result_panel ?l else panel ?s)"
    by blast
  with ne pn have b: "\<exists>st'. poll_body (0, ?l) ?s = Inr st' \<and>
      heap st' = [done_item, unset_item] \<and> panel st' = (''Pending...'', Dash, [], [])"
    by simp
  show ?thesis using a b by blast
qed






end
